theory Spec2Isabelle
  imports Complex_Main "HOL-Library.AList"
begin

section \<open>Python values and exceptions\<close>

text \<open>
  The values that flow through the modelled code: what a YAML parameter tree holds and
  what a node's \<^verbatim>\<open>_execute\<close> may return. A dict is an association list with
  distinct keys, in insertion order; floats are idealised as reals.
\<close>

datatype py_value =
    PyNone
  | PyBool bool
  | PyInt int
  | PyFloat real
  | PyStr string
  | PyList "py_value list"
  | PyDict "(string \<times> py_value) list"

text \<open>Python truthiness (\<^verbatim>\<open>bool(x)\<close>), as used by \<^verbatim>\<open>x or default\<close>.\<close>

fun py_truthy :: "py_value \<Rightarrow> bool" where
  "py_truthy PyNone = False"
| "py_truthy (PyBool b) = b"
| "py_truthy (PyInt i) = (i \<noteq> 0)"
| "py_truthy (PyFloat r) = (r \<noteq> 0)"
| "py_truthy (PyStr s) = (s \<noteq> [])"
| "py_truthy (PyList xs) = (xs \<noteq> [])"
| "py_truthy (PyDict kvs) = (kvs \<noteq> [])"

text \<open>
  A raised exception: where its class sits in the hierarchy (this decides which
  \<^verbatim>\<open>except\<close> clause catches it), the class name, the message and the
  \<^verbatim>\<open>__cause__\<close> set by \<^verbatim>\<open>raise ... from e\<close>.
  \<open>DatasetErrorKind\<close>: \<^verbatim>\<open>DatasetError\<close> or a subclass of it;
  \<open>ExceptionKind\<close>: any other subclass of \<^verbatim>\<open>Exception\<close>;
  \<open>BaseExceptionKind\<close>: a class outside \<^verbatim>\<open>Exception\<close>
  (\<^verbatim>\<open>KeyboardInterrupt\<close>, \<^verbatim>\<open>SystemExit\<close>, \<^verbatim>\<open>asyncio.CancelledError\<close>).
\<close>

datatype exc_kind = DatasetErrorKind | ExceptionKind | BaseExceptionKind

datatype py_exception =
  PyException (exc_kind: exc_kind) (exc_class: string) (exc_message: string)
              (exc_cause: "py_exception option")

definition DatasetError :: "string \<Rightarrow> py_exception option \<Rightarrow> py_exception" where
  "DatasetError message cause = PyException DatasetErrorKind ''DatasetError'' message cause"

definition ValueError :: "string \<Rightarrow> py_exception" where
  "ValueError message = PyException ExceptionKind ''ValueError'' message None"

definition RuntimeError :: "string \<Rightarrow> py_exception" where
  "RuntimeError message = PyException ExceptionKind ''RuntimeError'' message None"

definition KeyError :: "string \<Rightarrow> py_exception" where
  "KeyError message = PyException ExceptionKind ''KeyError'' message None"

definition RecursionError :: py_exception where
  "RecursionError =
     PyException ExceptionKind ''RecursionError'' ''maximum recursion depth exceeded'' None"

definition KeyboardInterrupt :: py_exception where
  "KeyboardInterrupt = PyException BaseExceptionKind ''KeyboardInterrupt'' [] None"

text \<open>\<^verbatim>\<open>isinstance(e, DatasetError)\<close> and \<^verbatim>\<open>isinstance(e, Exception)\<close>.\<close>

definition isinstance_DatasetError :: "py_exception \<Rightarrow> bool" where
  "isinstance_DatasetError e = (exc_kind e = DatasetErrorKind)"

definition isinstance_Exception :: "py_exception \<Rightarrow> bool" where
  "isinstance_Exception e = (exc_kind e \<noteq> BaseExceptionKind)"


section \<open>aineko/datasets/core.py\<close>

subsection \<open>DatasetCreateStatus\<close>

text \<open>
  A future or a status object is modelled by what its \<^verbatim>\<open>done()\<close> answers.
  Both attributes of the status are optional; \<open>None\<close> and an empty container are
  both false in a Python condition.
\<close>

datatype tracked = Tracked (tracked_done: bool)

record DatasetCreateStatus =
  dataset_name :: string
  kafka_topic_to_future :: "(string \<times> tracked) list option"
  status_list :: "tracked list option"

definition dict_truthy :: "('k \<times> 'v) list option \<Rightarrow> bool" where
  "dict_truthy d = (case d of None \<Rightarrow> False | Some kvs \<Rightarrow> kvs \<noteq> [])"

definition list_truthy :: "'a list option \<Rightarrow> bool" where
  "list_truthy l = (case l of None \<Rightarrow> False | Some xs \<Rightarrow> xs \<noteq> [])"

text \<open>
  \<^verbatim>\<open>DatasetCreateStatus.done\<close>. The three \<^verbatim>\<open>if\<close> statements in the source's
  order (named after the class, \<open>done\<close> being an Isar keyword); falling off the
  end of the method returns Python's \<^verbatim>\<open>None\<close>, here
  \<open>None\<close>.
\<close>

definition DatasetCreateStatus_done :: "DatasetCreateStatus \<Rightarrow> bool option" where
  "DatasetCreateStatus_done self =
     (if \<not> (dict_truthy (kafka_topic_to_future self) \<or> list_truthy (status_list self))
      then Some True
      else if dict_truthy (kafka_topic_to_future self)
      then Some (list_all tracked_done (map snd (the (kafka_topic_to_future self))))
      else if list_truthy (status_list self)
      then Some (list_all tracked_done (the (status_list self)))
      else None)"

subsection \<open>AbstractDataset and AbstractAsyncDataset\<close>

text \<open>
  A dataset object: its name and the six backend-specific private operations a subclass
  supplies (\<^verbatim>\<open>_read\<close>, \<^verbatim>\<open>_write\<close>, \<^verbatim>\<open>_create\<close>, \<^verbatim>\<open>_delete\<close>,
  \<^verbatim>\<open>_initialize\<close>, \<^verbatim>\<open>_exists\<close>). A private operation takes the call's
  arguments and either returns a value or raises.
\<close>

record ('a, 'r) dataset =
  name :: string
  priv_read :: "'a \<Rightarrow> py_exception + 'r"
  priv_write :: "'a \<Rightarrow> py_exception + 'r"
  priv_create :: "'a \<Rightarrow> py_exception + 'r"
  priv_delete :: "py_exception + 'r"
  priv_exists :: "'a \<Rightarrow> py_exception + 'r"
  priv_initialize :: "'a \<Rightarrow> py_exception + 'r"

text \<open>
  The body shared by every public wrapper:
  \<^verbatim>\<open>try: return <call>  except DatasetError: raise  except Exception as e: raise DatasetError(message) from e\<close>.
  An exception that neither clause catches leaves the \<^verbatim>\<open>try\<close> statement as it is.
\<close>

definition try_dataset_op :: "string \<Rightarrow> py_exception + 'r \<Rightarrow> py_exception + 'r" where
  "try_dataset_op message result =
     (case result of
        Inr v \<Rightarrow> Inr v
      | Inl e \<Rightarrow>
          if isinstance_DatasetError e then Inl e
          else if isinstance_Exception e then Inl (DatasetError message (Some e))
          else Inl e)"

definition AbstractDataset_read :: "('a, 'r) dataset \<Rightarrow> 'a \<Rightarrow> py_exception + 'r" where
  "AbstractDataset_read self kwargs =
     try_dataset_op (''Failed to read dataset '' @ name self @ ''.'') (priv_read self kwargs)"

definition AbstractDataset_write :: "('a, 'r) dataset \<Rightarrow> 'a \<Rightarrow> py_exception + 'r" where
  "AbstractDataset_write self args =
     try_dataset_op (''Failed to write dataset '' @ name self @ ''.'') (priv_write self args)"

definition AbstractDataset_create :: "('a, 'r) dataset \<Rightarrow> 'a \<Rightarrow> py_exception + 'r" where
  "AbstractDataset_create self kwargs =
     try_dataset_op (''Failed to create dataset '' @ name self @ ''.'') (priv_create self kwargs)"

definition AbstractDataset_delete :: "('a, 'r) dataset \<Rightarrow> py_exception + 'r" where
  "AbstractDataset_delete self =
     try_dataset_op (''Failed to delete dataset '' @ name self @ ''.'') (priv_delete self)"

definition AbstractDataset_exists :: "('a, 'r) dataset \<Rightarrow> 'a \<Rightarrow> py_exception + 'r" where
  "AbstractDataset_exists self kwargs =
     try_dataset_op (''Failed to check if dataset '' @ name self @ '' exists.'')
       (priv_exists self kwargs)"

definition AbstractDataset_initialize :: "('a, 'r) dataset \<Rightarrow> 'a \<Rightarrow> py_exception + 'r" where
  "AbstractDataset_initialize self kwargs =
     try_dataset_op (''Failed to initialize dataset '' @ name self @ ''.'')
       (priv_initialize self kwargs)"

text \<open>
  \<^verbatim>\<open>AbstractAsyncDataset\<close>: the same six wrappers written a second time in the
  source, each awaiting its private coroutine; the awaited call's outcome is what the
  \<^verbatim>\<open>try\<close> statement sees.
\<close>

definition AbstractAsyncDataset_read :: "('a, 'r) dataset \<Rightarrow> 'a \<Rightarrow> py_exception + 'r" where
  "AbstractAsyncDataset_read self kwargs =
     try_dataset_op (''Failed to read dataset '' @ name self @ ''.'') (priv_read self kwargs)"

definition AbstractAsyncDataset_write :: "('a, 'r) dataset \<Rightarrow> 'a \<Rightarrow> py_exception + 'r" where
  "AbstractAsyncDataset_write self args =
     try_dataset_op (''Failed to write dataset '' @ name self @ ''.'') (priv_write self args)"

definition AbstractAsyncDataset_create :: "('a, 'r) dataset \<Rightarrow> 'a \<Rightarrow> py_exception + 'r" where
  "AbstractAsyncDataset_create self kwargs =
     try_dataset_op (''Failed to create dataset '' @ name self @ ''.'') (priv_create self kwargs)"

definition AbstractAsyncDataset_delete :: "('a, 'r) dataset \<Rightarrow> py_exception + 'r" where
  "AbstractAsyncDataset_delete self =
     try_dataset_op (''Failed to delete dataset '' @ name self @ ''.'') (priv_delete self)"

definition AbstractAsyncDataset_exists :: "('a, 'r) dataset \<Rightarrow> 'a \<Rightarrow> py_exception + 'r" where
  "AbstractAsyncDataset_exists self kwargs =
     try_dataset_op (''Failed to check if dataset '' @ name self @ '' exists.'')
       (priv_exists self kwargs)"

definition AbstractAsyncDataset_initialize :: "('a, 'r) dataset \<Rightarrow> 'a \<Rightarrow> py_exception + 'r" where
  "AbstractAsyncDataset_initialize self kwargs =
     try_dataset_op (''Failed to initialize dataset '' @ name self @ ''.'')
       (priv_initialize self kwargs)"

text \<open>
  The operations of either class as one table, so that a statement can range over all of
  them: the wrapper, the private call it makes and the message it raises with.
\<close>

datatype dataset_op = Read | Write | Create | Delete | Exists | Initialize

fun public_op :: "dataset_op \<Rightarrow> ('a, 'r) dataset \<Rightarrow> 'a \<Rightarrow> py_exception + 'r" where
  "public_op Read self a = AbstractDataset_read self a"
| "public_op Write self a = AbstractDataset_write self a"
| "public_op Create self a = AbstractDataset_create self a"
| "public_op Delete self a = AbstractDataset_delete self"
| "public_op Exists self a = AbstractDataset_exists self a"
| "public_op Initialize self a = AbstractDataset_initialize self a"

fun async_public_op :: "dataset_op \<Rightarrow> ('a, 'r) dataset \<Rightarrow> 'a \<Rightarrow> py_exception + 'r" where
  "async_public_op Read self a = AbstractAsyncDataset_read self a"
| "async_public_op Write self a = AbstractAsyncDataset_write self a"
| "async_public_op Create self a = AbstractAsyncDataset_create self a"
| "async_public_op Delete self a = AbstractAsyncDataset_delete self"
| "async_public_op Exists self a = AbstractAsyncDataset_exists self a"
| "async_public_op Initialize self a = AbstractAsyncDataset_initialize self a"

fun private_op :: "dataset_op \<Rightarrow> ('a, 'r) dataset \<Rightarrow> 'a \<Rightarrow> py_exception + 'r" where
  "private_op Read self a = priv_read self a"
| "private_op Write self a = priv_write self a"
| "private_op Create self a = priv_create self a"
| "private_op Delete self a = priv_delete self"
| "private_op Exists self a = priv_exists self a"
| "private_op Initialize self a = priv_initialize self a"

fun failure_message :: "dataset_op \<Rightarrow> string \<Rightarrow> string" where
  "failure_message Read n = ''Failed to read dataset '' @ n @ ''.''"
| "failure_message Write n = ''Failed to write dataset '' @ n @ ''.''"
| "failure_message Create n = ''Failed to create dataset '' @ n @ ''.''"
| "failure_message Delete n = ''Failed to delete dataset '' @ n @ ''.''"
| "failure_message Exists n = ''Failed to check if dataset '' @ n @ '' exists.''"
| "failure_message Initialize n = ''Failed to initialize dataset '' @ n @ ''.''"


section \<open>aineko/core/node.py\<close>

subsection \<open>PoisonPill\<close>

record PoisonPill =
  state :: bool

definition PoisonPill_init :: PoisonPill where
  "PoisonPill_init = \<lparr>state = False\<rparr>"

definition activate :: "PoisonPill \<Rightarrow> PoisonPill" where
  "activate self = self\<lparr>state := True\<rparr>"

definition get_state :: "PoisonPill \<Rightarrow> bool \<times> PoisonPill" where
  "get_state self = (state self, self)"

text \<open>The operations a holder of the flag can perform on it.\<close>

datatype pill_op = Activate | GetState

fun pill_step :: "pill_op \<Rightarrow> PoisonPill \<Rightarrow> PoisonPill" where
  "pill_step Activate p = activate p"
| "pill_step GetState p = snd (get_state p)"

subsection \<open>Constants and test doubles the module imports\<close>

text \<open>
  Modelled from the spec: \<^verbatim>\<open>AINEKO_CONFIG.get("LOG_LEVELS")\<close> of aineko.config, which is
  not among the sources. The spec gives the fixed allowed set as
  info, debug, warning, error, critical.
\<close>

definition LOG_LEVELS :: "string list" where
  "LOG_LEVELS = [''info'', ''debug'', ''warning'', ''error'', ''critical'']"

text \<open>
  Modelled from the spec: \<^verbatim>\<open>DEFAULT_KAFKA_CONFIG.get("LOGGING_DATASET")\<close> of aineko.config,
  the name of the reserved logging output. The spec fixes no spelling; no result below
  depends on it.
\<close>

definition LOGGING_DATASET :: string where
  "LOGGING_DATASET = ''logging''"

text \<open>
  Modelled from the spec: \<^verbatim>\<open>TESTING_NODE_CONFIG.get("DATASETS")\<close> of aineko.config, the
  datasets every node under test is given besides its own. The spec calls the logging
  output reserved and always present.
\<close>

definition TESTING_NODE_DATASETS :: "string list" where
  "TESTING_NODE_DATASETS = [LOGGING_DATASET]"

text \<open>
  Modelled from the spec: the test doubles \<^verbatim>\<open>FakeDatasetInput\<close> and
  \<^verbatim>\<open>FakeDatasetOutput\<close> of aineko.datasets.kafka, which is not among the sources. An
  input double holds the caller-supplied values still to be read and the flag
  \<^verbatim>\<open>empty\<close> by which it reports itself exhausted, which a fresh double has not
  done yet; an output double holds, in \<^verbatim>\<open>values\<close>, the ordered sequence of what
  was written to it.
\<close>

record FakeDatasetInput =
  input_values :: "py_value list"
  empty :: bool

record FakeDatasetOutput =
  "values" :: "py_value list"

definition FakeDatasetInput_init :: "py_value list \<Rightarrow> FakeDatasetInput" where
  "FakeDatasetInput_init vs = \<lparr>input_values = vs, empty = False\<rparr>"

definition FakeDatasetOutput_init :: FakeDatasetOutput where
  "FakeDatasetOutput_init = \<lparr>values = []\<rparr>"

definition FakeDatasetOutput_write :: "FakeDatasetOutput \<Rightarrow> py_value \<Rightarrow> FakeDatasetOutput" where
  "FakeDatasetOutput_write self msg = self\<lparr>values := values self @ [msg]\<rparr>"

subsection \<open>AbstractNode\<close>

text \<open>
  The attributes of a node that the modelled methods touch. \<open>class_name\<close> is
  \<^verbatim>\<open>self.__class__.__name__\<close>; \<open>poison_pill\<close> is the optional actor handle;
  \<open>user\<close> holds whatever attributes a subclass adds. The process clock is part of the
  state: \<open>clock\<close> lists what successive calls of \<^verbatim>\<open>time.time()\<close> return and
  \<open>clock_reads\<close> counts the calls made so far.
\<close>

record 'u node =
  class_name :: string
  inputs :: "(string \<times> FakeDatasetInput) list"
  outputs :: "(string \<times> FakeDatasetOutput) list"
  params :: py_value
  test :: bool
  log_levels :: "string list"
  poison_pill :: "nat option"
  user :: 'u
  clock :: "nat \<Rightarrow> real"
  clock_reads :: nat

definition time_time :: "'u node \<Rightarrow> real \<times> 'u node" where
  "time_time self = (clock self (clock_reads self), self\<lparr>clock_reads := Suc (clock_reads self)\<rparr>)"

text \<open>
  The methods a subclass supplies: \<^verbatim>\<open>_pre_loop_hook\<close>, \<^verbatim>\<open>_execute\<close> and
  \<^verbatim>\<open>_post_loop_hook\<close>, each taking the parameters and the node, changing the node and
  returning or raising. \<open>format_exc\<close> is \<^verbatim>\<open>traceback.format_exc\<close>, the text
  printed for the exception being handled.
\<close>

record 'u node_methods =
  priv_pre_loop_hook :: "py_value \<Rightarrow> 'u node \<Rightarrow> (py_exception + unit) \<times> 'u node"
  priv_execute :: "py_value \<Rightarrow> 'u node \<Rightarrow> (py_exception + py_value) \<times> 'u node"
  priv_post_loop_hook :: "py_value \<Rightarrow> 'u node \<Rightarrow> (py_exception + unit) \<times> 'u node"
  format_exc :: "py_exception \<Rightarrow> string"

text \<open>The hooks as the base class defines them: \<^verbatim>\<open>pass\<close>.\<close>

definition default_hook :: "py_value \<Rightarrow> 'u node \<Rightarrow> (py_exception + unit) \<times> 'u node" where
  "default_hook ps self = (Inr (), self)"

text \<open>\<^verbatim>\<open>x or {}\<close> for an optional dict \<open>x\<close>.\<close>

definition or_empty_dict :: "py_value \<Rightarrow> py_value" where
  "or_empty_dict x = (if py_truthy x then x else PyDict [])"

text \<open>
  \<^verbatim>\<open>setup_test\<close>. The dict comprehensions build the doubles in the order of the
  caller's inputs and outputs; a name listed twice keeps its first position and one
  double.
\<close>

definition setup_test ::
  "(string \<times> py_value list) list option \<Rightarrow> string list option \<Rightarrow> py_value \<Rightarrow> 'u node
     \<Rightarrow> (py_exception + unit) \<times> 'u node" where
  "setup_test inputs_arg outputs_arg params_arg self =
     (if \<not> test self
      then (Inl (RuntimeError
              ''Node is not in test mode. Please initialize with `enable_test_mode()`.''), self)
      else
        let ins = (case inputs_arg of None \<Rightarrow> [] | Some d \<Rightarrow> d);
            outs = (case outputs_arg of None \<Rightarrow> [] | Some l \<Rightarrow> l) @ TESTING_NODE_DATASETS
        in (Inr (),
            self\<lparr>inputs := map (\<lambda>(dataset_name, vs). (dataset_name, FakeDatasetInput_init vs)) ins,
                 outputs := fold (\<lambda>dataset_name d. AList.update dataset_name FakeDatasetOutput_init d)
                              outs [],
                 params := or_empty_dict params_arg\<rparr>))"

text \<open>\<^verbatim>\<open>', '.join(xs)\<close>.\<close>

fun join :: "string \<Rightarrow> string list \<Rightarrow> string" where
  "join sep [] = []"
| "join sep [x] = x"
| "join sep (x # y # ys) = x @ sep @ join sep (y # ys)"

text \<open>
  \<^verbatim>\<open>AbstractNode.log\<close> (\<open>log\<close> alone is the logarithm in HOL). A level outside
  \<^verbatim>\<open>self.log_levels\<close> raises before anything is written; looking up the logging
  output in \<^verbatim>\<open>self.outputs\<close> raises \<^verbatim>\<open>KeyError\<close> when it is absent.
\<close>

definition AbstractNode_log :: "string \<Rightarrow> string \<Rightarrow> 'u node \<Rightarrow> (py_exception + unit) \<times> 'u node" where
  "AbstractNode_log message level self =
     (if level \<notin> set (log_levels self)
      then (Inl (ValueError (''Invalid logging level '' @ level @ ''. Valid options are: ''
                               @ join '', '' (log_levels self))), self)
      else
        let out_msg = PyDict [(''log'', PyStr message), (''level'', PyStr level)]
        in case map_of (outputs self) LOGGING_DATASET of
             None \<Rightarrow> (Inl (KeyError LOGGING_DATASET), self)
           | Some ds \<Rightarrow>
               (Inr (), self\<lparr>outputs := AList.update LOGGING_DATASET
                                           (FakeDatasetOutput_write ds out_msg) (outputs self)\<rparr>))"

definition log_traceback :: "'u node_methods \<Rightarrow> py_exception \<Rightarrow> 'u node \<Rightarrow> (py_exception + unit) \<times> 'u node" where
  "log_traceback m e self = AbstractNode_log (format_exc m e) ''debug'' self"

text \<open>
  The handler \<^verbatim>\<open>except Exception: self._log_traceback(); raise\<close> around the pre-loop hook
  and around each step: an exception it catches is logged and raised again; if logging
  itself raises, that exception leaves the handler instead.
\<close>

definition log_and_reraise :: "'u node_methods \<Rightarrow> py_exception \<Rightarrow> 'u node \<Rightarrow> (py_exception + unit) \<times> 'u node" where
  "log_and_reraise m e self =
     (if isinstance_Exception e
      then (case log_traceback m e self of
              (Inl e', s) \<Rightarrow> (Inl e', s)
            | (Inr _, s) \<Rightarrow> (Inl e, s))
      else (Inl e, self))"

text \<open>
  The loop of \<^verbatim>\<open>execute\<close>: \<^verbatim>\<open>while run_loop is not False\<close>, entered with
  \<^verbatim>\<open>run_loop = True\<close>, so the step runs at least once. It need not end: not
  returning is \<open>None\<close>.
\<close>

partial_function (option) execute_loop ::
  "'u node_methods \<Rightarrow> py_value \<Rightarrow> 'u node \<Rightarrow> ((py_exception + unit) \<times> 'u node) option" where
  "execute_loop m ps self =
     (case priv_execute m ps self of
        (Inl e, s) \<Rightarrow> Some (log_and_reraise m e s)
      | (Inr run_loop, s) \<Rightarrow>
          if run_loop \<noteq> PyBool False then execute_loop m ps s else Some (Inr (), s))"

definition execute ::
  "'u node_methods \<Rightarrow> py_value \<Rightarrow> 'u node \<Rightarrow> ((py_exception + unit) \<times> 'u node) option" where
  "execute m params_arg self =
     (let ps = or_empty_dict params_arg
      in case priv_pre_loop_hook m ps self of
           (Inl e, s1) \<Rightarrow> Some (log_and_reraise m e s1)
         | (Inr _, s1) \<Rightarrow>
             (case execute_loop m ps s1 of
                None \<Rightarrow> None
              | Some (Inl e, s2) \<Rightarrow> Some (Inl e, s2)
              | Some (Inr _, s2) \<Rightarrow>
                  (case AbstractNode_log (''Execution loop complete for node: '' @ class_name s2)
                          ''info'' s2 of
                     (Inl e, s3) \<Rightarrow> (Some (Inl e, s3))
                   | (Inr _, s3) \<Rightarrow> Some (priv_post_loop_hook m ps s3))))"

text \<open>
  \<^verbatim>\<open>activate_poison_pill\<close>. The flag lives in an actor outside the node; \<open>actors\<close>
  maps each handle to the flag it designates, and the remote call is waited for.
\<close>

definition activate_poison_pill :: "'u node \<Rightarrow> (nat \<Rightarrow> PoisonPill) \<Rightarrow> (nat \<Rightarrow> PoisonPill)" where
  "activate_poison_pill self actors =
     (case poison_pill self of
        None \<Rightarrow> actors
      | Some h \<Rightarrow> actors(h := activate (actors h)))"

text \<open>
  The end of one iteration of the loop of \<^verbatim>\<open>run_test\<close>, after \<^verbatim>\<open>_execute\<close> has
  returned \<open>run_loop\<close>: the value \<^verbatim>\<open>run_loop\<close> has when the \<^verbatim>\<open>while\<close>
  condition is tested next.
\<close>

definition all_inputs_empty :: "'u node \<Rightarrow> bool" where
  "all_inputs_empty self = (inputs self \<noteq> [] \<and> list_all (\<lambda>(dataset_name, i). empty i) (inputs self))"

definition end_of_iteration ::
  "int option \<Rightarrow> real \<Rightarrow> py_value \<Rightarrow> 'u node \<Rightarrow> py_value \<times> 'u node" where
  "end_of_iteration runtime start_time run_loop self =
     (case runtime of
        None \<Rightarrow> (if all_inputs_empty self then PyBool False else run_loop, self)
      | Some rt \<Rightarrow>
          (case time_time self of
             (now, s) \<Rightarrow>
               if now - start_time < real_of_int rt then (run_loop, s)
               else (if all_inputs_empty s then PyBool False else run_loop, s)))"

partial_function (option) run_test_loop ::
  "'u node_methods \<Rightarrow> int option \<Rightarrow> real \<Rightarrow> 'u node \<Rightarrow> ((py_exception + unit) \<times> 'u node) option" where
  "run_test_loop m runtime start_time self =
     (case priv_execute m (params self) self of
        (Inl e, s) \<Rightarrow> Some (Inl e, s)
      | (Inr r, s) \<Rightarrow>
          (case end_of_iteration runtime start_time r s of
             (run_loop, s') \<Rightarrow>
               if run_loop \<noteq> PyBool False then run_test_loop m runtime start_time s'
               else Some (Inr (), s')))"

definition run_test ::
  "'u node_methods \<Rightarrow> int option \<Rightarrow> 'u node
     \<Rightarrow> ((py_exception + (string \<times> py_value list) list) \<times> 'u node) option" where
  "run_test m runtime self =
     (if \<not> test self
      then Some (Inl (RuntimeError
              ''Node is not in test mode. Please initialize with `enable_test_mode()`.''), self)
      else
        case time_time self of
          (start_time, s0) \<Rightarrow>
            (case priv_pre_loop_hook m (params s0) s0 of
               (Inl e, s1) \<Rightarrow> Some (Inl e, s1)
             | (Inr _, s1) \<Rightarrow>
                 (case run_test_loop m runtime start_time s1 of
                    None \<Rightarrow> None
                  | Some (Inl e, s2) \<Rightarrow> Some (Inl e, s2)
                  | Some (Inr _, s2) \<Rightarrow>
                      (case priv_post_loop_hook m (params s2) s2 of
                         (Inl e, s3) \<Rightarrow> Some (Inl e, s3)
                       | (Inr _, s3) \<Rightarrow>
                           Some (Inr (map (\<lambda>(dataset_name, output). (dataset_name, values output))
                                        (outputs s3)), s3)))))"

subsection \<open>Iterating the loops\<close>

text \<open>
  The first \<open>k\<close> calls of \<^verbatim>\<open>_execute\<close> in the loop of \<^verbatim>\<open>execute\<close>, made one
  after the other whatever they return: the values returned and the node they leave.
  \<open>None\<close> if one of the calls raises.
\<close>

fun execute_steps ::
  "'u node_methods \<Rightarrow> py_value \<Rightarrow> nat \<Rightarrow> 'u node \<Rightarrow> (py_value list \<times> 'u node) option" where
  "execute_steps m ps 0 self = Some ([], self)"
| "execute_steps m ps (Suc k) self =
     (case priv_execute m ps self of
        (Inl e, s) \<Rightarrow> None
      | (Inr r, s) \<Rightarrow>
          (case execute_steps m ps k s of
             None \<Rightarrow> None
           | Some (rs, s') \<Rightarrow> Some (r # rs, s')))"

text \<open>
  The first \<open>k\<close> iterations of the loop of \<^verbatim>\<open>run_test\<close>, likewise: the values
  \<^verbatim>\<open>run_loop\<close> has at the end of each, and the node they leave.
\<close>

fun run_test_steps ::
  "'u node_methods \<Rightarrow> int option \<Rightarrow> real \<Rightarrow> nat \<Rightarrow> 'u node \<Rightarrow> (py_value list \<times> 'u node) option" where
  "run_test_steps m runtime start_time 0 self = Some ([], self)"
| "run_test_steps m runtime start_time (Suc k) self =
     (case priv_execute m (params self) self of
        (Inl e, s) \<Rightarrow> None
      | (Inr r, s) \<Rightarrow>
          (case end_of_iteration runtime start_time r s of
             (run_loop, s') \<Rightarrow>
               (case run_test_steps m runtime start_time k s' of
                  None \<Rightarrow> None
                | Some (rls, s'') \<Rightarrow> Some (run_loop # rls, s''))))"

text \<open>
  Whether the budget lets the loop end at the clock reading an iteration takes: there is
  no budget, or the time since the start is not below it.
\<close>

definition budget_elapsed :: "int option \<Rightarrow> real \<Rightarrow> 'u node \<Rightarrow> bool" where
  "budget_elapsed runtime start_time self =
     (case runtime of
        None \<Rightarrow> True
      | Some rt \<Rightarrow> \<not> (clock self (clock_reads self) - start_time < real_of_int rt))"

section \<open>aineko/core/config_loader.py\<close>

subsection \<open>The regular expression and \<^verbatim>\<open>str.replace\<close>\<close>

text \<open>
  \<^verbatim>\<open>re.search(r"\{\$.*?\}", s, re.DOTALL)\<close>: the leftmost position where \<^verbatim>\<open>{$\<close>
  starts a match, then as few characters of any kind as possible up to a closing brace.
  \<open>up_to_brace\<close> is the text before the first closing brace, if there is one;
  \<open>re_search\<close> returns the matched text (\<^verbatim>\<open>group()\<close>).
\<close>

fun up_to_brace :: "string \<Rightarrow> string option" where
  "up_to_brace [] = None"
| "up_to_brace (c # cs) =
     (if c = CHR ''}'' then Some [] else map_option ((#) c) (up_to_brace cs))"

fun re_search :: "string \<Rightarrow> string option" where
  "re_search [] = None"
| "re_search [c] = None"
| "re_search (c # d # cs) =
     (if c = CHR ''{'' \<and> d = CHR ''$''
      then (case up_to_brace cs of
              Some nm \<Rightarrow> Some (CHR ''{'' # CHR ''$'' # nm @ ''}'')
            | None \<Rightarrow> re_search (d # cs))
      else re_search (d # cs))"

text \<open>\<^verbatim>\<open>env_var_env_str[2:][:-1]\<close>: the variable's name inside the matched text.\<close>

definition placeholder_name :: "string \<Rightarrow> string" where
  "placeholder_name env_var_env_str = butlast (drop 2 env_var_env_str)"

text \<open>
  \<^verbatim>\<open>s.replace(old, new)\<close>: every occurrence of \<open>old\<close>, found from the left and not
  overlapping, becomes \<open>new\<close>. With an empty \<open>old\<close> Python puts \<open>new\<close> before every
  character and at the end.
\<close>

function str_replace :: "string \<Rightarrow> string \<Rightarrow> string \<Rightarrow> string" where
  "str_replace old new [] = (if old = [] then new else [])"
| "str_replace old new (c # cs) =
     (if old = [] then new @ c # str_replace old new cs
      else if take (length old) (c # cs) = old
      then new @ str_replace old new (drop (length old) (c # cs))
      else c # str_replace old new cs)"
  by pat_completeness auto
termination
  by (relation "measure (\<lambda>(old, new, s). length s)") auto

subsection \<open>\<^verbatim>\<open>ConfigLoader.inject_env_vars\<close> on parameter trees\<close>

text \<open>
  The process environment, as \<^verbatim>\<open>os.getenv(name, default=None)\<close> reads it.
\<close>

type_synonym environ = "string \<Rightarrow> string option"

definition missing_variable :: "string \<Rightarrow> py_exception" where
  "missing_variable nm =
     ValueError (''Failed to inject environment variable. '' @ nm @ '' was not found.'')"

text \<open>
  A \<^verbatim>\<open>for\<close> loop that calls \<open>f\<close> on each element in turn and stops at the first
  call that raises.
\<close>

fun for_each :: "('a \<Rightarrow> py_exception + 'b) \<Rightarrow> 'a list \<Rightarrow> py_exception + 'b list" where
  "for_each f [] = Inr []"
| "for_each f (x # xs) =
     (case f x of
        Inl e \<Rightarrow> Inl e
      | Inr y \<Rightarrow> (case for_each f xs of Inl e \<Rightarrow> Inl e | Inr ys \<Rightarrow> Inr (y # ys)))"

text \<open>
  The value \<^verbatim>\<open>inject_env_vars\<close> returns for a parameter tree. The method calls itself
  for every entry of a dict or list and again after each substitution in a string; the
  first argument is the number of nested calls the interpreter still allows, and a call
  beyond it raises \<^verbatim>\<open>RecursionError\<close>. Assigning to an existing key of a dict, or to
  an index of a list, replaces that entry where it stands, so keys, order and length are
  kept. Values that are not a dict, a list or a string are returned as they are.
\<close>

fun inject_env_vars :: "nat \<Rightarrow> environ \<Rightarrow> py_value \<Rightarrow> py_exception + py_value" where
  "inject_env_vars 0 env node_params = Inl RecursionError"
| "inject_env_vars (Suc depth) env (PyDict kvs) =
     (case for_each (\<lambda>(k, v). case inject_env_vars depth env v of
                                 Inl e \<Rightarrow> Inl e | Inr v' \<Rightarrow> Inr (k, v')) kvs of
        Inl e \<Rightarrow> Inl e
      | Inr kvs' \<Rightarrow> Inr (PyDict kvs'))"
| "inject_env_vars (Suc depth) env (PyList xs) =
     (case for_each (\<lambda>v. inject_env_vars depth env v) xs of
        Inl e \<Rightarrow> Inl e
      | Inr xs' \<Rightarrow> Inr (PyList xs'))"
| "inject_env_vars (Suc depth) env (PyStr s) =
     (case re_search s of
        None \<Rightarrow> Inr (PyStr s)
      | Some env_var_env_str \<Rightarrow>
          (case env (placeholder_name env_var_env_str) of
             None \<Rightarrow> Inl (missing_variable (placeholder_name env_var_env_str))
           | Some env_var_value \<Rightarrow>
               inject_env_vars depth env (PyStr (str_replace env_var_env_str env_var_value s))))"
| "inject_env_vars (Suc depth) env node_params = Inr node_params"

text \<open>The string leaves of a tree: the strings that are values, in traversal order.\<close>

fun string_leaves :: "py_value \<Rightarrow> string list" where
  "string_leaves (PyStr s) = [s]"
| "string_leaves (PyList xs) = concat (map string_leaves xs)"
| "string_leaves (PyDict kvs) = concat (map (\<lambda>(k, v). string_leaves v) kvs)"
| "string_leaves v = []"









subsection \<open>\<^verbatim>\<open>ConfigLoader.inject_env_vars\<close> on the caller's objects\<close>

text \<open>
  What the method does to the objects it is handed. A dict or a list is an object in a
  store, known by its address; a value is a scalar or the address of such an object, so
  that two places may hold the same dict or list.
\<close>

datatype ref_value = RNone | RBool bool | RInt int | RFloat real | RStr string | RRef nat

datatype heap_obj = DictObj "(string \<times> ref_value) list" | ListObj "ref_value list"

type_synonym heap = "nat \<Rightarrow> heap_obj option"

text \<open>\<^verbatim>\<open>node_params[k] = v\<close> on the dict, and \<^verbatim>\<open>node_params[i] = v\<close> on the list, at an address.\<close>

definition dict_setitem :: "nat \<Rightarrow> string \<Rightarrow> ref_value \<Rightarrow> heap \<Rightarrow> heap" where
  "dict_setitem a k v h =
     (case h a of Some (DictObj kvs) \<Rightarrow> h(a \<mapsto> DictObj (AList.update k v kvs)) | _ \<Rightarrow> h)"

definition list_setitem :: "nat \<Rightarrow> nat \<Rightarrow> ref_value \<Rightarrow> heap \<Rightarrow> heap" where
  "list_setitem a i v h =
     (case h a of
        Some (ListObj xs) \<Rightarrow> if i < length xs then h(a \<mapsto> ListObj (xs[i := v])) else h
      | _ \<Rightarrow> h)"

text \<open>
  \<^verbatim>\<open>for k, v in list(node_params.items()): node_params[k] = self.inject_env_vars(v)\<close>:
  the loop runs over a copy of the items made before it starts and assigns into the dict
  itself. \<open>f\<close> is the recursive call.
\<close>

fun dict_loop ::
  "(ref_value \<Rightarrow> heap \<Rightarrow> (py_exception + ref_value) \<times> heap) \<Rightarrow> nat \<Rightarrow> (string \<times> ref_value) list
     \<Rightarrow> heap \<Rightarrow> (py_exception + unit) \<times> heap" where
  "dict_loop f a [] h = (Inr (), h)"
| "dict_loop f a ((k, v) # items) h =
     (case f v h of
        (Inl e, h') \<Rightarrow> (Inl e, h')
      | (Inr v', h') \<Rightarrow> dict_loop f a items (dict_setitem a k v' h'))"

text \<open>
  \<^verbatim>\<open>for i, v in enumerate(node_params): node_params[i] = self.inject_env_vars(v)\<close>:
  the loop runs over the list itself and reads each element when it reaches its index.
  Nothing in the method changes the length of a list, so the indices visited are those
  the list has when the loop starts.
\<close>

fun list_loop ::
  "(ref_value \<Rightarrow> heap \<Rightarrow> (py_exception + ref_value) \<times> heap) \<Rightarrow> nat \<Rightarrow> nat list
     \<Rightarrow> heap \<Rightarrow> (py_exception + unit) \<times> heap" where
  "list_loop f a [] h = (Inr (), h)"
| "list_loop f a (i # indices) h =
     (case h a of
        Some (ListObj xs) \<Rightarrow>
          if i < length xs
          then (case f (xs ! i) h of
                  (Inl e, h') \<Rightarrow> (Inl e, h')
                | (Inr v', h') \<Rightarrow> list_loop f a indices (list_setitem a i v' h'))
          else (Inr (), h)
      | _ \<Rightarrow> (Inr (), h))"

text \<open>
  The method itself: what it returns and the store it leaves, also when it raises. The
  first argument is again the number of nested calls still allowed. An address that
  holds no dict or list stands for an object of another type, which is returned as it is.
\<close>

fun inject_env_vars_store ::
  "nat \<Rightarrow> environ \<Rightarrow> ref_value \<Rightarrow> heap \<Rightarrow> (py_exception + ref_value) \<times> heap" where
  "inject_env_vars_store 0 env node_params h = (Inl RecursionError, h)"
| "inject_env_vars_store (Suc depth) env (RRef a) h =
     (case h a of
        Some (DictObj kvs) \<Rightarrow>
          (case dict_loop (\<lambda>v h'. inject_env_vars_store depth env v h') a kvs h of
             (Inl e, h') \<Rightarrow> (Inl e, h')
           | (Inr _, h') \<Rightarrow> (Inr (RRef a), h'))
      | Some (ListObj xs) \<Rightarrow>
          (case list_loop (\<lambda>v h'. inject_env_vars_store depth env v h') a [0..<length xs] h of
             (Inl e, h') \<Rightarrow> (Inl e, h')
           | (Inr _, h') \<Rightarrow> (Inr (RRef a), h'))
      | None \<Rightarrow> (Inr (RRef a), h))"
| "inject_env_vars_store (Suc depth) env (RStr s) h =
     (case re_search s of
        None \<Rightarrow> (Inr (RStr s), h)
      | Some env_var_env_str \<Rightarrow>
          (case env (placeholder_name env_var_env_str) of
             None \<Rightarrow> (Inl (missing_variable (placeholder_name env_var_env_str)), h)
           | Some env_var_value \<Rightarrow>
               inject_env_vars_store depth env
                 (RStr (str_replace env_var_env_str env_var_value s)) h))"
| "inject_env_vars_store (Suc depth) env node_params h = (Inr node_params, h)"

text \<open>
  How a value or a store after a call relates to the one before. \<open>injected\<close>: a string
  has become the string that injection returns for it, and anything else is the very
  same value (for a dict or list, the same address). \<open>slot_kept\<close>: a place holds what
  it held, or the injection of the string it held. \<open>store_kept\<close>: every object is
  still there with the same kind, keys and length, and each of its places is kept in
  that sense. \<open>wf_store\<close>: the keys of a dict are distinct.
\<close>

definition is_str :: "ref_value \<Rightarrow> bool" where
  "is_str v = (case v of RStr s \<Rightarrow> True | _ \<Rightarrow> False)"

definition injection_of :: "environ \<Rightarrow> ref_value \<Rightarrow> ref_value \<Rightarrow> bool" where
  "injection_of env v v' =
     (\<exists>s s' depth. v = RStr s \<and> v' = RStr s'
        \<and> inject_env_vars depth env (PyStr s) = Inr (PyStr s'))"

definition injected :: "environ \<Rightarrow> ref_value \<Rightarrow> ref_value \<Rightarrow> bool" where
  "injected env v v' = (if is_str v then injection_of env v v' else v' = v)"

definition slot_kept :: "environ \<Rightarrow> ref_value \<Rightarrow> ref_value \<Rightarrow> bool" where
  "slot_kept env v v' = (v' = v \<or> injection_of env v v')"

fun obj_kept :: "environ \<Rightarrow> heap_obj \<Rightarrow> heap_obj \<Rightarrow> bool" where
  "obj_kept env (DictObj kvs) (DictObj kvs') =
     (map fst kvs' = map fst kvs \<and> list_all2 (slot_kept env) (map snd kvs) (map snd kvs'))"
| "obj_kept env (ListObj xs) (ListObj xs') = list_all2 (slot_kept env) xs xs'"
| "obj_kept env obj obj' = False"

definition store_kept :: "environ \<Rightarrow> heap \<Rightarrow> heap \<Rightarrow> bool" where
  "store_kept env h h' = (\<forall>a. rel_option (obj_kept env) (h a) (h' a))"

definition wf_store :: "heap \<Rightarrow> bool" where
  "wf_store h = (\<forall>a kvs. h a = Some (DictObj kvs) \<longrightarrow> distinct (map fst kvs))"

text \<open>
  What the loops need of the call they make on each entry: started in a well-formed
  store, it keeps the store, and a value it returns is the injection of its argument.
\<close>

definition keeps_store ::
  "environ \<Rightarrow> (ref_value \<Rightarrow> heap \<Rightarrow> (py_exception + ref_value) \<times> heap) \<Rightarrow> bool" where
  "keeps_store env f =
     (\<forall>v h res h'. wf_store h \<longrightarrow> f v h = (res, h') \<longrightarrow>
        store_kept env h h' \<and> (\<forall>r. res = Inr r \<longrightarrow> injected env v r))"

text \<open>
  When a value in a store stands for a parameter tree: a scalar for itself, an address
  for the list or dict whose entries stand for the entries of the tree, in order and
  under the same keys.
\<close>

fun repr :: "heap \<Rightarrow> ref_value \<Rightarrow> py_value \<Rightarrow> bool" where
  "repr h v PyNone = (v = RNone)"
| "repr h v (PyBool b) = (v = RBool b)"
| "repr h v (PyInt i) = (v = RInt i)"
| "repr h v (PyFloat r) = (v = RFloat r)"
| "repr h v (PyStr s) = (v = RStr s)"
| "repr h v (PyList ts) =
     (case v of
        RRef a \<Rightarrow> (case h a of Some (ListObj xs) \<Rightarrow> list_all2 (\<lambda>x t. repr h x t) xs ts | _ \<Rightarrow> False)
      | _ \<Rightarrow> False)"
| "repr h v (PyDict kts) =
     (case v of
        RRef a \<Rightarrow>
          (case h a of
             Some (DictObj kvs) \<Rightarrow> list_all2 (\<lambda>p q. fst p = fst q \<and> repr h (snd p) (snd q)) kvs kts
           | _ \<Rightarrow> False)
      | _ \<Rightarrow> False)"


text \<open>
  Two trees of the same shape, with the same keys and the same scalars, whose strings
  at corresponding leaves are related by \<open>R\<close>.
\<close>

fun tree_rel :: "(string \<Rightarrow> string \<Rightarrow> bool) \<Rightarrow> py_value \<Rightarrow> py_value \<Rightarrow> bool" where
  "tree_rel R (PyStr s) (PyStr s') = R s s'"
| "tree_rel R (PyList ts) (PyList ts') = list_all2 (\<lambda>t t'. tree_rel R t t') ts ts'"
| "tree_rel R (PyDict kts) (PyDict kts') =
     list_all2 (\<lambda>p q. fst q = fst p \<and> tree_rel R (snd p) (snd q)) kts kts'"
| "tree_rel R PyNone t' = (t' = PyNone)"
| "tree_rel R (PyBool b) t' = (t' = PyBool b)"
| "tree_rel R (PyInt i) t' = (t' = PyInt i)"
| "tree_rel R (PyFloat r) t' = (t' = PyFloat r)"
| "tree_rel R t t' = False"

text \<open>
  \<open>inj_str\<close>: the second string is what injection returns for the first.
  \<open>tree_injected\<close>: the second tree is the first with every string leaf injected.
  \<open>tree_kept\<close>: every string leaf is as it was or injected.
\<close>

definition inj_str :: "environ \<Rightarrow> string \<Rightarrow> string \<Rightarrow> bool" where
  "inj_str env s s' = (\<exists>depth. inject_env_vars depth env (PyStr s) = Inr (PyStr s'))"

definition kept_str :: "environ \<Rightarrow> string \<Rightarrow> string \<Rightarrow> bool" where
  "kept_str env s s' = (s' = s \<or> inj_str env s s')"

definition tree_injected :: "environ \<Rightarrow> py_value \<Rightarrow> py_value \<Rightarrow> bool" where
  "tree_injected env t t' = tree_rel (inj_str env) t t'"

definition tree_kept :: "environ \<Rightarrow> py_value \<Rightarrow> py_value \<Rightarrow> bool" where
  "tree_kept env t t' = tree_rel (kept_str env) t t'"

text \<open>
  What the loops need of the call they make on each entry, for trees: called on a value
  that stands for a tree, it returns a value that stands for the injected tree.
\<close>

definition tree_good ::
  "environ \<Rightarrow> (ref_value \<Rightarrow> heap \<Rightarrow> (py_exception + ref_value) \<times> heap) \<Rightarrow> bool" where
  "tree_good env f =
     (\<forall>v h t r h'. wf_store h \<longrightarrow> repr h v t \<longrightarrow> f v h = (Inr r, h') \<longrightarrow>
        (\<exists>t'. repr h' r t' \<and> tree_injected env t t'))"


section \<open>Concrete objects used in the examples\<close>

text \<open>A dataset named \<^verbatim>\<open>d\<close> whose six private operations all end the same given way.\<close>

definition example_dataset :: "py_exception + py_value \<Rightarrow> (unit, py_value) dataset" where
  "example_dataset outcome =
     \<lparr>name = ''d'',
      priv_read = (\<lambda>_. outcome), priv_write = (\<lambda>_. outcome), priv_create = (\<lambda>_. outcome),
      priv_delete = outcome, priv_exists = (\<lambda>_. outcome), priv_initialize = (\<lambda>_. outcome)\<rparr>"

definition CancelledError :: py_exception where
  "CancelledError = PyException BaseExceptionKind ''CancelledError'' [] None"

text \<open>A status built with one finished topic future and one pending connection status.\<close>

definition mixed_status :: DatasetCreateStatus where
  "mixed_status =
     \<lparr>dataset_name = ''d'',
      kafka_topic_to_future = Some [(''topic'', Tracked True)],
      status_list = Some [Tracked False]\<rparr>"

text \<open>
  A node in test mode, set up with no input and no output of its own. Its clock reads
  0, 10, 20, ... seconds.
\<close>

definition test_node :: "nat node" where
  "test_node =
     \<lparr>class_name = ''Doubler'', inputs = [],
      outputs = [(LOGGING_DATASET, FakeDatasetOutput_init)],
      params = PyDict [], test = True, log_levels = LOG_LEVELS, poison_pill = None,
      user = 0, clock = (\<lambda>n. 10 * real n), clock_reads = 0\<rparr>"

definition log_record :: "string \<Rightarrow> string \<Rightarrow> py_value" where
  "log_record message level = PyDict [(''log'', PyStr message), (''level'', PyStr level)]"

text \<open>A subclass whose hooks each log one line and whose step stops at once.\<close>

definition logging_methods :: "nat node_methods" where
  "logging_methods =
     \<lparr>priv_pre_loop_hook = (\<lambda>ps self. AbstractNode_log ''pre'' ''info'' self),
      priv_execute = (\<lambda>ps self. (Inr (PyBool False), self)),
      priv_post_loop_hook = (\<lambda>ps self. AbstractNode_log ''post'' ''info'' self),
      format_exc = exc_message\<rparr>"

text \<open>
  A subclass whose step counts its calls in \<open>user\<close> and returns \<^verbatim>\<open>None\<close>, then
  \<^verbatim>\<open>0\<close>, then \<^verbatim>\<open>[]\<close>, then \<^verbatim>\<open>False\<close>.
\<close>

definition falsy_methods :: "nat node_methods" where
  "falsy_methods =
     \<lparr>priv_pre_loop_hook = default_hook,
      priv_execute = (\<lambda>ps self.
         (Inr (if user self = 0 then PyNone else if user self = 1 then PyInt 0
               else if user self = 2 then PyList [] else PyBool False),
          self\<lparr>user := Suc (user self)\<rparr>)),
      priv_post_loop_hook = default_hook,
      format_exc = exc_message\<rparr>"

text \<open>
  A node with one input double, and a subclass whose step counts its calls and returns
  \<^verbatim>\<open>None\<close>; from its \<open>n\<close>-th call on the input has been read to the end and reports
  itself empty.
\<close>

definition input_node :: "nat node" where
  "input_node =
     test_node\<lparr>inputs := [(''input'', \<lparr>input_values = [PyInt 1, PyInt 2, PyInt 3], empty = False\<rparr>)]\<rparr>"

definition draining_methods :: "nat \<Rightarrow> nat node_methods" where
  "draining_methods n =
     \<lparr>priv_pre_loop_hook = default_hook,
      priv_execute = (\<lambda>ps self.
         (Inr PyNone,
          self\<lparr>user := Suc (user self),
               inputs := (if n \<le> Suc (user self)
                          then map (\<lambda>(dataset_name, i). (dataset_name, \<lparr>input_values = [], empty = True\<rparr>))
                                 (inputs self)
                          else inputs self)\<rparr>)),
      priv_post_loop_hook = default_hook,
      format_exc = exc_message\<rparr>"

text \<open>Two nodes that hold the same flag, one that holds none.\<close>

definition node_with_pill :: "nat node" where
  "node_with_pill = test_node\<lparr>poison_pill := Some 7\<rparr>"

text \<open>An environment with two variables set, and parameter trees to inject into.\<close>

definition example_env :: environ where
  "example_env = [''USER'' \<mapsto> ''ann'', ''PORT'' \<mapsto> ''80'']"

definition example_tree :: py_value where
  "example_tree =
     PyDict [(''url'', PyStr ''{$USER}@host:{$PORT}/{$USER}''),
             (''retries'', PyInt 3),
             (''tags'', PyList [PyStr ''p{$PORT}'', PyNone])]"

definition injected_tree :: py_value where
  "injected_tree =
     PyDict [(''url'', PyStr ''ann@host:80/ann''),
             (''retries'', PyInt 3),
             (''tags'', PyList [PyStr ''p80'', PyNone])]"







section \<open>Results about aineko/datasets/core.py\<close>

subsection \<open>DatasetCreateStatus.done\<close>

lemma done_returns_bool: "\<exists>b. DatasetCreateStatus_done self = Some b"
  by (auto simp add: DatasetCreateStatus_done_def)

lemma done_nothing_tracked:
  "\<not> dict_truthy (kafka_topic_to_future self) \<Longrightarrow> \<not> list_truthy (status_list self)
     \<Longrightarrow> DatasetCreateStatus_done self = Some True"
  by (simp add: DatasetCreateStatus_done_def)

lemma done_futures_only:
  "kafka_topic_to_future self = Some kvs \<Longrightarrow> kvs \<noteq> []
     \<Longrightarrow> DatasetCreateStatus_done self = Some (\<forall>f \<in> set (map snd kvs). tracked_done f)"
  by (simp add: DatasetCreateStatus_done_def dict_truthy_def list_all_iff)

lemma done_statuses_only:
  "\<not> dict_truthy (kafka_topic_to_future self) \<Longrightarrow> status_list self = Some xs \<Longrightarrow> xs \<noteq> []
     \<Longrightarrow> DatasetCreateStatus_done self = Some (\<forall>x \<in> set xs. tracked_done x)"
  by (simp add: DatasetCreateStatus_done_def list_truthy_def list_all_iff)

text \<open>
  Claim C5. \<^verbatim>\<open>done()\<close> is claimed to be true exactly when nothing is tracked or every
  tracked item, future or status, is complete, and false while any tracked item is
  incomplete. The method returns from the branch for the futures without looking at the
  status list: a status built with a finished future and a pending status answers true.
\<close>

theorem done_true_while_status_pending:
  "DatasetCreateStatus_done mixed_status = Some True
   \<and> status_list mixed_status = Some [Tracked False]
   \<and> \<not> tracked_done (Tracked False)"
  by (simp add: DatasetCreateStatus_done_def mixed_status_def dict_truthy_def list_truthy_def)

subsection \<open>The public wrappers\<close>

lemma public_op_eq:
  "public_op op self a = try_dataset_op (failure_message op (name self)) (private_op op self a)"
  by (cases op)
     (simp_all add: AbstractDataset_read_def AbstractDataset_write_def AbstractDataset_create_def
        AbstractDataset_delete_def AbstractDataset_exists_def AbstractDataset_initialize_def)

lemma async_public_op_eq:
  "async_public_op op self a =
     try_dataset_op (failure_message op (name self)) (private_op op self a)"
  by (cases op)
     (simp_all add: AbstractAsyncDataset_read_def AbstractAsyncDataset_write_def
        AbstractAsyncDataset_create_def AbstractAsyncDataset_delete_def
        AbstractAsyncDataset_exists_def AbstractAsyncDataset_initialize_def)

lemma try_dataset_op_cases:
  "try_dataset_op msg (Inr v) = Inr v"
  "isinstance_DatasetError e \<Longrightarrow> try_dataset_op msg (Inl e) = Inl e"
  "\<not> isinstance_DatasetError e \<Longrightarrow> isinstance_Exception e
     \<Longrightarrow> try_dataset_op msg (Inl e) = Inl (DatasetError msg (Some e))"
  "\<not> isinstance_Exception e \<Longrightarrow> try_dataset_op msg (Inl e) = Inl e"
  by (simp_all add: try_dataset_op_def)

text \<open>
  Claim C1, as stated: every exception of the private implementation that is not a
  \<^verbatim>\<open>DatasetError\<close> comes out of the wrapper as a \<^verbatim>\<open>DatasetError\<close>. The wrappers
  catch \<^verbatim>\<open>Exception\<close>, so an exception outside that class is not wrapped: a
  \<^verbatim>\<open>KeyboardInterrupt\<close> raised by \<^verbatim>\<open>_read\<close>, or the \<^verbatim>\<open>CancelledError\<close> of a
  cancelled awaited \<^verbatim>\<open>_read\<close>, leaves \<^verbatim>\<open>read\<close> as it is.
\<close>

theorem wrapper_does_not_wrap_base_exceptions:
  "\<not> isinstance_DatasetError KeyboardInterrupt
   \<and> AbstractDataset_read (example_dataset (Inl KeyboardInterrupt)) () = Inl KeyboardInterrupt
   \<and> \<not> isinstance_DatasetError CancelledError
   \<and> AbstractAsyncDataset_read (example_dataset (Inl CancelledError)) () = Inl CancelledError"
  by (simp add: AbstractDataset_read_def AbstractAsyncDataset_read_def try_dataset_op_def
        example_dataset_def KeyboardInterrupt_def CancelledError_def
        isinstance_DatasetError_def isinstance_Exception_def)

text \<open>
  Claim C1, amended. For each of read, write, create, delete, exists and initialize, in
  the synchronous and in the asynchronous class: a result of the private implementation
  is returned unchanged; a \<^verbatim>\<open>DatasetError\<close> it raises is raised unchanged; any other
  exception derived from \<^verbatim>\<open>Exception\<close> is replaced by a \<^verbatim>\<open>DatasetError\<close> whose
  message is the operation's failure message with the dataset's name in it and whose
  cause is the original exception; an exception outside \<^verbatim>\<open>Exception\<close> is raised
  unchanged.
\<close>

theorem dataset_wrapper_error_envelope:
  "(private_op op self a = Inr v \<longrightarrow>
      public_op op self a = Inr v \<and> async_public_op op self a = Inr v)
   \<and> (private_op op self a = Inl e \<and> isinstance_DatasetError e \<longrightarrow>
      public_op op self a = Inl e \<and> async_public_op op self a = Inl e)
   \<and> (private_op op self a = Inl e \<and> \<not> isinstance_DatasetError e \<and> isinstance_Exception e \<longrightarrow>
      public_op op self a = Inl (DatasetError (failure_message op (name self)) (Some e))
      \<and> async_public_op op self a = Inl (DatasetError (failure_message op (name self)) (Some e))
      \<and> (\<exists>before after. failure_message op (name self) = before @ name self @ after))
   \<and> (private_op op self a = Inl e \<and> \<not> isinstance_Exception e \<longrightarrow>
      public_op op self a = Inl e \<and> async_public_op op self a = Inl e)"
proof -
  have named: "\<exists>before after. failure_message op (name self) = before @ name self @ after"
    by (cases op) (simp_all only: failure_message.simps, blast+)
  show ?thesis
    using named by (simp add: public_op_eq async_public_op_eq try_dataset_op_cases)
qed

theorem dataset_wrapper_error_envelope_witness:
  "AbstractDataset_read (example_dataset (Inr (PyInt 1))) () = Inr (PyInt 1)
   \<and> AbstractAsyncDataset_write (example_dataset (Inl (DatasetError ''inner'' None))) ()
       = Inl (DatasetError ''inner'' None)
   \<and> AbstractDataset_exists (example_dataset (Inl (ValueError ''boom''))) ()
       = Inl (DatasetError ''Failed to check if dataset d exists.'' (Some (ValueError ''boom'')))
   \<and> AbstractAsyncDataset_delete (example_dataset (Inl CancelledError)) = Inl CancelledError"
  using
    dataset_wrapper_error_envelope
      [of Read "example_dataset (Inr (PyInt 1))" "()" "PyInt 1" undefined]
    dataset_wrapper_error_envelope
      [of Write "example_dataset (Inl (DatasetError ''inner'' None))" "()" undefined
          "DatasetError ''inner'' None"]
    dataset_wrapper_error_envelope
      [of Exists "example_dataset (Inl (ValueError ''boom''))" "()" undefined "ValueError ''boom''"]
    dataset_wrapper_error_envelope
      [of Delete "example_dataset (Inl CancelledError)" "()" undefined CancelledError]
  by (simp add: example_dataset_def DatasetError_def ValueError_def CancelledError_def
        isinstance_DatasetError_def isinstance_Exception_def)

section \<open>Results about aineko/core/node.py\<close>

subsection \<open>The shutdown flag\<close>

lemma pill_step_keeps_active: "state p \<Longrightarrow> state (pill_step op p)"
  by (cases op) (simp_all add: activate_def get_state_def)

lemma pill_steps_keep_active: "state p \<Longrightarrow> state (fold pill_step ops p)"
  by (induction ops arbitrary: p) (simp_all add: pill_step_keeps_active)

text \<open>
  Claim C9. For a node that holds a handle, \<^verbatim>\<open>activate_poison_pill\<close> leaves the flag
  active, and a second call changes nothing more; whatever operations are then performed
  on an active flag, it stays active; for a node that holds no handle the call changes
  nothing (and, having no way to raise, does not fail).
\<close>

theorem activate_poison_pill_idempotent:
  "(poison_pill self = Some h \<longrightarrow>
      state (activate_poison_pill self actors h)
      \<and> activate_poison_pill self (activate_poison_pill self actors)
          = activate_poison_pill self actors)
   \<and> (state p \<longrightarrow> state (fold pill_step ops p))
   \<and> (poison_pill self = None \<longrightarrow> activate_poison_pill self actors = actors)"
  by (auto simp add: activate_poison_pill_def activate_def pill_steps_keep_active)

theorem activate_poison_pill_idempotent_witness:
  "state (activate_poison_pill node_with_pill (\<lambda>h. PoisonPill_init) 7)
   \<and> state (activate_poison_pill node_with_pill
              (activate_poison_pill node_with_pill (\<lambda>h. PoisonPill_init)) 7)
   \<and> state (fold pill_step [GetState, Activate, GetState] (activate PoisonPill_init))
   \<and> activate_poison_pill test_node (\<lambda>h. PoisonPill_init) = (\<lambda>h. PoisonPill_init)"
  using
    activate_poison_pill_idempotent
      [of node_with_pill 7 "\<lambda>h. PoisonPill_init" "activate PoisonPill_init"
          "[GetState, Activate, GetState]"]
    activate_poison_pill_idempotent
      [of test_node 7 "\<lambda>h. PoisonPill_init" "activate PoisonPill_init" "[]"]
  by (simp add: node_with_pill_def test_node_def activate_def)

subsection \<open>The loop of execute\<close>

lemma execute_loop_stop:
  "priv_execute m ps self = (Inr (PyBool False), s) \<Longrightarrow> execute_loop m ps self = Some (Inr (), s)"
  by (subst execute_loop.simps) simp

lemma execute_loop_continue:
  "priv_execute m ps self = (Inr r, s) \<Longrightarrow> r \<noteq> PyBool False
     \<Longrightarrow> execute_loop m ps self = execute_loop m ps s"
  by (subst execute_loop.simps) simp

lemma execute_loop_raise:
  "priv_execute m ps self = (Inl e, s) \<Longrightarrow> execute_loop m ps self = Some (log_and_reraise m e s)"
  by (subst execute_loop.simps) simp

lemma execute_loop_steps:
  "execute_steps m ps k self = Some (rs, s) \<Longrightarrow> PyBool False \<notin> set rs
     \<Longrightarrow> execute_loop m ps self = execute_loop m ps s"
proof (induction k arbitrary: self rs)
  case 0
  then show ?case by simp
next
  case (Suc k)
  from Suc.prems(1) obtain r s1 rs' where
    step: "priv_execute m ps self = (Inr r, s1)" and
    rest: "execute_steps m ps k s1 = Some (rs', s)" and
    rs: "rs = r # rs'"
    by (auto split: prod.splits sum.splits option.splits)
  from rs Suc.prems(2) have "r \<noteq> PyBool False" "PyBool False \<notin> set rs'"
    by auto
  with step rest Suc.IH show ?case
    by (simp add: execute_loop_continue)
qed

text \<open>
  Claim C4, as stated: a false-like value returned by the step (\<^verbatim>\<open>False\<close>,
  \<^verbatim>\<open>None\<close>, \<^verbatim>\<open>0\<close>, an empty collection) ends the loop. The loop tests
  \<^verbatim>\<open>run_loop is not False\<close>: a step that returns \<^verbatim>\<open>None\<close>, then \<^verbatim>\<open>0\<close>, then
  \<^verbatim>\<open>[]\<close>, all false in a condition, is called a fourth time, and the loop ends only
  when that call returns \<^verbatim>\<open>False\<close>.
\<close>

theorem execute_loop_continues_on_falsy_values:
  "\<not> py_truthy PyNone \<and> \<not> py_truthy (PyInt 0) \<and> \<not> py_truthy (PyList [])
   \<and> execute_steps falsy_methods (PyDict []) (Suc (Suc (Suc 0))) test_node
       = Some ([PyNone, PyInt 0, PyList []], test_node\<lparr>user := 3\<rparr>)
   \<and> execute_loop falsy_methods (PyDict []) test_node = Some (Inr (), test_node\<lparr>user := 4\<rparr>)"
proof -
  have steps: "execute_steps falsy_methods (PyDict []) (Suc (Suc (Suc 0))) test_node
       = Some ([PyNone, PyInt 0, PyList []], test_node\<lparr>user := 3\<rparr>)"
    by (simp add: falsy_methods_def test_node_def)
  have last: "priv_execute falsy_methods (PyDict []) (test_node\<lparr>user := 3\<rparr>)
       = (Inr (PyBool False), test_node\<lparr>user := 4\<rparr>)"
    by (simp add: falsy_methods_def test_node_def)
  have "execute_loop falsy_methods (PyDict []) test_node
       = execute_loop falsy_methods (PyDict []) (test_node\<lparr>user := 3\<rparr>)"
    using execute_loop_steps [OF steps] by simp
  with execute_loop_stop [OF last] steps show ?thesis
    by simp
qed

text \<open>
  Claim C4, amended. In the run loop of \<^verbatim>\<open>execute\<close>, the loop goes on to the next
  iteration after every value the step returns other than \<^verbatim>\<open>False\<close> itself
  (\<^verbatim>\<open>None\<close>, \<^verbatim>\<open>0\<close> and empty collections included), and it ends, returning
  normally, at the first call of the step that returns \<^verbatim>\<open>False\<close>.
\<close>

theorem execute_loop_ends_on_False_only:
  "(execute_steps m ps k self = Some (rs, s) \<and> PyBool False \<notin> set rs \<longrightarrow>
      execute_loop m ps self = execute_loop m ps s)
   \<and> (execute_steps m ps k self = Some (rs, s) \<and> PyBool False \<notin> set rs
        \<and> priv_execute m ps s = (Inr (PyBool False), s') \<longrightarrow>
      execute_loop m ps self = Some (Inr (), s'))"
  using execute_loop_steps [of m ps k self rs s] execute_loop_stop [of m ps s s']
  by simp

theorem execute_loop_ends_on_False_only_witness:
  "execute_loop falsy_methods (PyDict []) test_node
     = execute_loop falsy_methods (PyDict []) (test_node\<lparr>user := 2\<rparr>)
   \<and> execute_loop falsy_methods (PyDict []) (test_node\<lparr>user := 1\<rparr>)
     = Some (Inr (), test_node\<lparr>user := 4\<rparr>)"
proof -
  have two: "execute_steps falsy_methods (PyDict []) (Suc (Suc 0)) test_node
               = Some ([PyNone, PyInt 0], test_node\<lparr>user := 2\<rparr>)
             \<and> PyBool False \<notin> set [PyNone, PyInt 0]"
    by (simp add: falsy_methods_def test_node_def)
  have three: "execute_steps falsy_methods (PyDict []) (Suc (Suc 0)) (test_node\<lparr>user := 1\<rparr>)
                 = Some ([PyInt 0, PyList []], test_node\<lparr>user := 3\<rparr>)
               \<and> PyBool False \<notin> set [PyInt 0, PyList []]
               \<and> priv_execute falsy_methods (PyDict []) (test_node\<lparr>user := 3\<rparr>)
                   = (Inr (PyBool False), test_node\<lparr>user := 4\<rparr>)"
    by (simp add: falsy_methods_def test_node_def)
  from two
    execute_loop_ends_on_False_only
      [of falsy_methods "PyDict []" "Suc (Suc 0)" test_node "[PyNone, PyInt 0]"
          "test_node\<lparr>user := 2\<rparr>" undefined]
  have "execute_loop falsy_methods (PyDict []) test_node
          = execute_loop falsy_methods (PyDict []) (test_node\<lparr>user := 2\<rparr>)"
    by blast
  moreover from three
    execute_loop_ends_on_False_only
      [of falsy_methods "PyDict []" "Suc (Suc 0)" "test_node\<lparr>user := 1\<rparr>"
          "[PyInt 0, PyList []]" "test_node\<lparr>user := 3\<rparr>" "test_node\<lparr>user := 4\<rparr>"]
  have "execute_loop falsy_methods (PyDict []) (test_node\<lparr>user := 1\<rparr>)
          = Some (Inr (), test_node\<lparr>user := 4\<rparr>)"
    by blast
  ultimately show ?thesis
    by blast
qed

subsection \<open>log and setup_test\<close>

lemma join_LOG_LEVELS: "join '', '' LOG_LEVELS = ''info, debug, warning, error, critical''"
  by (simp add: LOG_LEVELS_def)

lemma log_invalid_level:
  "level \<notin> set (log_levels self) \<Longrightarrow>
     AbstractNode_log message level self =
       (Inl (ValueError (''Invalid logging level '' @ level @ ''. Valid options are: ''
                           @ join '', '' (log_levels self))), self)"
  by (simp add: AbstractNode_log_def)

lemma log_valid_level:
  "level \<in> set (log_levels self) \<Longrightarrow> map_of (outputs self) LOGGING_DATASET = Some ds \<Longrightarrow>
     AbstractNode_log message level self =
       (Inr (), self\<lparr>outputs := AList.update LOGGING_DATASET
                         (FakeDatasetOutput_write ds (log_record message level)) (outputs self)\<rparr>)"
  by (simp add: AbstractNode_log_def log_record_def)

lemma map_of_fold_update_init:
  "map_of (fold (\<lambda>k d. AList.update k v d) ks d0) k =
     (if k \<in> set ks then Some v else map_of d0 k)"
  by (induction ks arbitrary: d0) (auto simp add: update_conv')

lemma setup_test_outputs:
  "test self \<Longrightarrow>
     \<exists>s. setup_test ins outs ps self = (Inr (), s)
        \<and> map_of (outputs s) LOGGING_DATASET = Some FakeDatasetOutput_init
        \<and> log_levels s = log_levels self \<and> test s"
  by (simp add: setup_test_def Let_def map_of_fold_update_init TESTING_NODE_DATASETS_def
        update_conv')

text \<open>
  Claim C8. With the node's levels the fixed set, \<^verbatim>\<open>log\<close> with a level outside it raises
  the invalid-level error, whose message lists info, debug, warning, error, critical, and
  leaves the node as it was; with a level of the set it appends exactly the record
  \<^verbatim>\<open>{"log": message, "level": level}\<close> to the logging output and touches no other
  output. After \<^verbatim>\<open>setup_test\<close> in test mode the logging output is among the node's
  outputs, empty, whatever outputs the caller named (none included), so that a valid
  \<^verbatim>\<open>log\<close> call then succeeds.
\<close>

theorem log_checks_level_and_writes_record:
  assumes "log_levels self = LOG_LEVELS"
  shows
    "(level \<notin> set LOG_LEVELS \<longrightarrow>
        AbstractNode_log message level self =
          (Inl (ValueError (''Invalid logging level '' @ level
                  @ ''. Valid options are: info, debug, warning, error, critical'')), self))
     \<and> (level \<in> set LOG_LEVELS \<and> map_of (outputs self) LOGGING_DATASET = Some ds \<longrightarrow>
        AbstractNode_log message level self =
          (Inr (), self\<lparr>outputs := AList.update LOGGING_DATASET
                     (ds\<lparr>values := values ds
                           @ [PyDict [(''log'', PyStr message), (''level'', PyStr level)]]\<rparr>)
                     (outputs self)\<rparr>))
     \<and> (test self \<longrightarrow>
        (\<exists>s. setup_test ins outs ps self = (Inr (), s)
           \<and> map_of (outputs s) LOGGING_DATASET = Some \<lparr>values = []\<rparr>
           \<and> (level \<in> set LOG_LEVELS \<longrightarrow>
                (\<exists>s'. AbstractNode_log message level s = (Inr (), s')
                   \<and> map_of (outputs s') LOGGING_DATASET
                       = Some \<lparr>values = [PyDict [(''log'', PyStr message),
                                                  (''level'', PyStr level)]]\<rparr>))))"
proof (intro conjI impI)
  assume "level \<notin> set LOG_LEVELS"
  with assms show "AbstractNode_log message level self =
      (Inl (ValueError (''Invalid logging level '' @ level
              @ ''. Valid options are: info, debug, warning, error, critical'')), self)"
    using log_invalid_level [of level self message] join_LOG_LEVELS by simp
next
  assume "level \<in> set LOG_LEVELS \<and> map_of (outputs self) LOGGING_DATASET = Some ds"
  with assms show "AbstractNode_log message level self =
      (Inr (), self\<lparr>outputs := AList.update LOGGING_DATASET
                 (ds\<lparr>values := values ds
                       @ [PyDict [(''log'', PyStr message), (''level'', PyStr level)]]\<rparr>)
                 (outputs self)\<rparr>)"
    using log_valid_level [of level self ds message]
    by (simp add: FakeDatasetOutput_write_def log_record_def)
next
  assume "test self"
  then obtain s where
    s: "setup_test ins outs ps self = (Inr (), s)"
       "map_of (outputs s) LOGGING_DATASET = Some FakeDatasetOutput_init"
       "log_levels s = log_levels self"
    using setup_test_outputs [of self ins outs ps] by blast
  have "level \<in> set LOG_LEVELS \<longrightarrow>
          (\<exists>s'. AbstractNode_log message level s = (Inr (), s')
             \<and> map_of (outputs s') LOGGING_DATASET
                 = Some \<lparr>values = [PyDict [(''log'', PyStr message), (''level'', PyStr level)]]\<rparr>)"
    using s assms log_valid_level [of level s FakeDatasetOutput_init message]
    by (simp add: FakeDatasetOutput_write_def FakeDatasetOutput_init_def log_record_def
          update_conv')
  with s show "\<exists>s. setup_test ins outs ps self = (Inr (), s)
      \<and> map_of (outputs s) LOGGING_DATASET = Some \<lparr>values = []\<rparr>
      \<and> (level \<in> set LOG_LEVELS \<longrightarrow>
           (\<exists>s'. AbstractNode_log message level s = (Inr (), s')
              \<and> map_of (outputs s') LOGGING_DATASET
                  = Some \<lparr>values = [PyDict [(''log'', PyStr message),
                                             (''level'', PyStr level)]]\<rparr>))"
    by (auto simp add: FakeDatasetOutput_init_def)
qed

theorem log_checks_level_and_writes_record_witness:
  "AbstractNode_log ''hello'' ''verbose'' test_node =
     (Inl (ValueError (''Invalid logging level verbose''
             @ ''. Valid options are: info, debug, warning, error, critical'')), test_node)
   \<and> AbstractNode_log ''hello'' ''warning'' test_node =
     (Inr (), test_node\<lparr>outputs := [(LOGGING_DATASET,
                \<lparr>values = [PyDict [(''log'', PyStr ''hello''), (''level'', PyStr ''warning'')]]\<rparr>)]\<rparr>)
   \<and> (\<exists>s. setup_test None None PyNone test_node = (Inr (), s)
          \<and> map_of (outputs s) LOGGING_DATASET = Some \<lparr>values = []\<rparr>)"
proof -
  have levels: "log_levels test_node = LOG_LEVELS"
    by (simp add: test_node_def)
  have invalid: "''verbose'' \<notin> set LOG_LEVELS"
    by (simp add: LOG_LEVELS_def)
  have valid: "''warning'' \<in> set LOG_LEVELS
      \<and> map_of (outputs test_node) LOGGING_DATASET = Some FakeDatasetOutput_init"
    by (simp add: LOG_LEVELS_def test_node_def)
  have mode: "test test_node"
    by (simp add: test_node_def)
  note inst = log_checks_level_and_writes_record [OF levels]
  from invalid inst [of "''verbose''" "''hello''"]
  have "AbstractNode_log ''hello'' ''verbose'' test_node =
     (Inl (ValueError (''Invalid logging level verbose''
             @ ''. Valid options are: info, debug, warning, error, critical'')), test_node)"
    by simp
  moreover from valid inst [of "''warning''" "''hello''" FakeDatasetOutput_init]
  have "AbstractNode_log ''hello'' ''warning'' test_node =
     (Inr (), test_node\<lparr>outputs := [(LOGGING_DATASET,
                \<lparr>values = [PyDict [(''log'', PyStr ''hello''), (''level'', PyStr ''warning'')]]\<rparr>)]\<rparr>)"
    by (simp add: test_node_def FakeDatasetOutput_init_def)
  moreover from mode inst [of "''warning''" "''hello''" FakeDatasetOutput_init None None PyNone]
  have "\<exists>s. setup_test None None PyNone test_node = (Inr (), s)
          \<and> map_of (outputs s) LOGGING_DATASET = Some \<lparr>values = []\<rparr>"
    by blast
  ultimately show ?thesis
    by blast
qed

subsection \<open>The order of the steps of execute\<close>

lemma execute_run:
  assumes "priv_pre_loop_hook m (or_empty_dict ps) self = (Inr (), s1)"
    and "execute_steps m (or_empty_dict ps) k s1 = Some (rs, s2)"
    and "PyBool False \<notin> set rs"
    and "priv_execute m (or_empty_dict ps) s2 = (Inr (PyBool False), s3)"
    and "''info'' \<in> set (log_levels s3)"
    and "map_of (outputs s3) LOGGING_DATASET = Some ds"
  shows "execute m ps self =
           Some (priv_post_loop_hook m (or_empty_dict ps)
                   (s3\<lparr>outputs := AList.update LOGGING_DATASET
                          (ds\<lparr>values := values ds
                                @ [log_record (''Execution loop complete for node: '' @ class_name s3)
                                     ''info'']\<rparr>)
                          (outputs s3)\<rparr>))"
proof -
  have "execute_loop m (or_empty_dict ps) s1 = Some (Inr (), s3)"
    using execute_loop_steps [OF assms(2) assms(3)] execute_loop_stop [OF assms(4)] by simp
  moreover have "AbstractNode_log (''Execution loop complete for node: '' @ class_name s3) ''info'' s3
      = (Inr (), s3\<lparr>outputs := AList.update LOGGING_DATASET
                          (ds\<lparr>values := values ds
                                @ [log_record (''Execution loop complete for node: '' @ class_name s3)
                                     ''info'']\<rparr>)
                          (outputs s3)\<rparr>)"
    using log_valid_level [OF assms(5) assms(6)] by (simp add: FakeDatasetOutput_write_def)
  ultimately show ?thesis
    using assms(1) by (simp add: execute_def)
qed

lemma logging_methods_pre:
  "priv_pre_loop_hook logging_methods (or_empty_dict PyNone) test_node =
     (Inr (), test_node\<lparr>outputs := [(LOGGING_DATASET, \<lparr>values = [log_record ''pre'' ''info'']\<rparr>)]\<rparr>)"
  by (simp add: logging_methods_def test_node_def AbstractNode_log_def LOG_LEVELS_def
        FakeDatasetOutput_write_def FakeDatasetOutput_init_def log_record_def)

lemma logging_methods_run:
  "execute logging_methods PyNone test_node =
     Some (AbstractNode_log ''post'' ''info''
             (test_node\<lparr>outputs := [(LOGGING_DATASET,
                \<lparr>values = [log_record ''pre'' ''info'',
                            log_record ''Execution loop complete for node: Doubler'' ''info'']\<rparr>)]\<rparr>))"
proof -
  let ?s1 = "test_node\<lparr>outputs := [(LOGGING_DATASET, \<lparr>values = [log_record ''pre'' ''info'']\<rparr>)]\<rparr>"
  have steps: "execute_steps logging_methods (or_empty_dict PyNone) 0 ?s1 = Some ([], ?s1)"
    by simp
  have none: "PyBool False \<notin> set []"
    by simp
  have stop: "priv_execute logging_methods (or_empty_dict PyNone) ?s1 = (Inr (PyBool False), ?s1)"
    by (simp add: logging_methods_def)
  have info: "''info'' \<in> set (log_levels ?s1)"
    by (simp add: test_node_def LOG_LEVELS_def)
  have out: "map_of (outputs ?s1) LOGGING_DATASET = Some \<lparr>values = [log_record ''pre'' ''info'']\<rparr>"
    by simp
  show ?thesis
    using execute_run [OF logging_methods_pre steps none stop info out]
    by (simp add: logging_methods_def test_node_def)
qed

text \<open>
  Claim C3, as stated: the final log line is emitted after the post-loop hook. In
  \<^verbatim>\<open>execute\<close> the call of \<^verbatim>\<open>self.log\<close> stands before the call of
  \<^verbatim>\<open>self._post_loop_hook\<close>: when each hook logs a line of its own, the logging output
  ends with the line of the post-loop hook, and the final line of \<^verbatim>\<open>execute\<close>
  comes before it.
\<close>

theorem execute_final_log_precedes_post_loop_hook:
  "execute logging_methods PyNone test_node =
     Some (Inr (), test_node\<lparr>outputs := [(LOGGING_DATASET,
       \<lparr>values = [log_record ''pre'' ''info'',
                   log_record ''Execution loop complete for node: Doubler'' ''info'',
                   log_record ''post'' ''info'']\<rparr>)]\<rparr>)"
  by (simp add: logging_methods_run)
     (simp add: test_node_def AbstractNode_log_def LOG_LEVELS_def
        FakeDatasetOutput_write_def log_record_def)

text \<open>
  Claim C3, amended. \<^verbatim>\<open>execute\<close> performs the lifecycle steps in this order: the
  pre-loop hook, then the step loop until the step returns \<^verbatim>\<open>False\<close>, then the final
  log line, which names the node's class, and only then the post-loop hook, which runs on
  a node whose logging output already holds that line; what the post-loop hook returns
  or raises is the outcome of \<^verbatim>\<open>execute\<close>.
\<close>

theorem execute_lifecycle_order:
  assumes "priv_pre_loop_hook m (or_empty_dict ps) self = (Inr (), s1)"
    and "execute_steps m (or_empty_dict ps) k s1 = Some (rs, s2)"
    and "PyBool False \<notin> set rs"
    and "priv_execute m (or_empty_dict ps) s2 = (Inr (PyBool False), s3)"
    and "''info'' \<in> set (log_levels s3)"
    and "map_of (outputs s3) LOGGING_DATASET = Some ds"
  shows "execute m ps self =
           Some (priv_post_loop_hook m (or_empty_dict ps)
                   (s3\<lparr>outputs := AList.update LOGGING_DATASET
                          (ds\<lparr>values := values ds
                                @ [log_record (''Execution loop complete for node: '' @ class_name s3)
                                     ''info'']\<rparr>)
                          (outputs s3)\<rparr>))"
  using assms by (rule execute_run)

theorem execute_lifecycle_order_witness:
  "execute logging_methods PyNone test_node =
     Some (AbstractNode_log ''post'' ''info''
             (test_node\<lparr>outputs := [(LOGGING_DATASET,
                \<lparr>values = [log_record ''pre'' ''info'',
                            log_record ''Execution loop complete for node: Doubler'' ''info'']\<rparr>)]\<rparr>))"
proof -
  let ?s1 = "test_node\<lparr>outputs := [(LOGGING_DATASET, \<lparr>values = [log_record ''pre'' ''info'']\<rparr>)]\<rparr>"
  have steps: "execute_steps logging_methods (or_empty_dict PyNone) 0 ?s1 = Some ([], ?s1)"
    by simp
  have none: "PyBool False \<notin> set []"
    by simp
  have stop: "priv_execute logging_methods (or_empty_dict PyNone) ?s1 = (Inr (PyBool False), ?s1)"
    by (simp add: logging_methods_def)
  have info: "''info'' \<in> set (log_levels ?s1)"
    by (simp add: test_node_def LOG_LEVELS_def)
  have out: "map_of (outputs ?s1) LOGGING_DATASET = Some \<lparr>values = [log_record ''pre'' ''info'']\<rparr>"
    by simp
  show ?thesis
    using execute_lifecycle_order [OF logging_methods_pre steps none stop info out]
    by (simp add: logging_methods_def test_node_def)
qed

subsection \<open>The loop of run_test\<close>

lemma time_time_inputs [simp]: "inputs (snd (time_time self)) = inputs self"
  by (simp add: time_time_def)

lemma end_of_iteration_run_loop:
  "fst (end_of_iteration runtime start_time r self) =
     (if budget_elapsed runtime start_time self \<and> all_inputs_empty self then PyBool False else r)"
  by (cases runtime)
     (simp_all add: end_of_iteration_def budget_elapsed_def all_inputs_empty_def time_time_def)

lemma end_of_iteration_False_iff:
  "fst (end_of_iteration runtime start_time r self) = PyBool False \<longleftrightarrow>
     r = PyBool False \<or> (budget_elapsed runtime start_time self \<and> all_inputs_empty self)"
  by (auto simp add: end_of_iteration_run_loop)

lemma run_test_loop_stop:
  "priv_execute m (params self) self = (Inr r, s) \<Longrightarrow>
   end_of_iteration runtime start_time r s = (PyBool False, s') \<Longrightarrow>
     run_test_loop m runtime start_time self = Some (Inr (), s')"
  by (subst run_test_loop.simps) simp

lemma run_test_loop_continue:
  "priv_execute m (params self) self = (Inr r, s) \<Longrightarrow>
   end_of_iteration runtime start_time r s = (run_loop, s') \<Longrightarrow> run_loop \<noteq> PyBool False \<Longrightarrow>
     run_test_loop m runtime start_time self = run_test_loop m runtime start_time s'"
  by (subst run_test_loop.simps) simp

lemma run_test_loop_steps:
  "run_test_steps m runtime start_time k self = Some (rls, s) \<Longrightarrow> PyBool False \<notin> set rls
     \<Longrightarrow> run_test_loop m runtime start_time self = run_test_loop m runtime start_time s"
proof (induction k arbitrary: self rls)
  case 0
  then show ?case by simp
next
  case (Suc k)
  from Suc.prems(1) obtain r s1 run_loop s2 rls' where
    step: "priv_execute m (params self) self = (Inr r, s1)" and
    iter: "end_of_iteration runtime start_time r s1 = (run_loop, s2)" and
    rest: "run_test_steps m runtime start_time k s2 = Some (rls', s)" and
    rls: "rls = run_loop # rls'"
    by (auto split: prod.splits sum.splits option.splits)
  from rls Suc.prems(2) have "run_loop \<noteq> PyBool False" "PyBool False \<notin> set rls'"
    by auto
  with step iter rest Suc.IH show ?case
    by (simp add: run_test_loop_continue)
qed

lemma run_test_run:
  assumes "test self"
    and "time_time self = (start_time, s0)"
    and "priv_pre_loop_hook m (params s0) s0 = (Inr (), s1)"
    and "run_test_steps m runtime start_time k s1 = Some (rls, s2)"
    and "PyBool False \<notin> set rls"
    and "priv_execute m (params s2) s2 = (Inr r, s3)"
    and "r = PyBool False \<or> (budget_elapsed runtime start_time s3 \<and> all_inputs_empty s3)"
    and "priv_post_loop_hook m (params (snd (end_of_iteration runtime start_time r s3)))
           (snd (end_of_iteration runtime start_time r s3)) = (Inr (), s5)"
  shows "run_test m runtime self =
           Some (Inr (map (\<lambda>(dataset_name, output). (dataset_name, values output)) (outputs s5)), s5)"
proof -
  obtain s4 where s4: "end_of_iteration runtime start_time r s3 = (PyBool False, s4)"
    using assms(7) end_of_iteration_False_iff [of runtime start_time r s3]
    by (cases "end_of_iteration runtime start_time r s3") auto
  have "run_test_loop m runtime start_time s1 = Some (Inr (), s4)"
    using run_test_loop_steps [OF assms(4) assms(5)] run_test_loop_stop [OF assms(6) s4]
    by simp
  with assms(1,2,3,8) s4 show ?thesis
    by (simp add: run_test_def)
qed

lemma draining_run:
  assumes "run_test_steps (draining_methods n) (Some rt) 0 (Suc (Suc 0)) (input_node\<lparr>clock_reads := 1\<rparr>)
             = Some ([PyNone, PyNone], s2)"
    and "priv_execute (draining_methods n) (params s2) s2 = (Inr PyNone, s3)"
    and "budget_elapsed (Some rt) 0 s3 \<and> all_inputs_empty s3"
  shows "run_test (draining_methods n) (Some rt) input_node =
           Some (Inr (map (\<lambda>(dataset_name, output). (dataset_name, values output))
                        (outputs (snd (end_of_iteration (Some rt) 0 PyNone s3)))),
                 snd (end_of_iteration (Some rt) 0 PyNone s3))"
proof -
  have mode: "test input_node"
    by (simp add: input_node_def test_node_def)
  have start: "time_time input_node = (0, input_node\<lparr>clock_reads := 1\<rparr>)"
    by (simp add: time_time_def input_node_def test_node_def)
  have pre: "priv_pre_loop_hook (draining_methods n) (params (input_node\<lparr>clock_reads := 1\<rparr>))
               (input_node\<lparr>clock_reads := 1\<rparr>) = (Inr (), input_node\<lparr>clock_reads := 1\<rparr>)"
    by (simp add: draining_methods_def default_hook_def)
  have none: "PyBool False \<notin> set [PyNone, PyNone]"
    by simp
  have post: "priv_post_loop_hook (draining_methods n)
                (params (snd (end_of_iteration (Some rt) 0 PyNone s3)))
                (snd (end_of_iteration (Some rt) 0 PyNone s3))
              = (Inr (), snd (end_of_iteration (Some rt) 0 PyNone s3))"
    by (simp add: draining_methods_def default_hook_def)
  from assms(3) have stop: "PyNone = PyBool False \<or> (budget_elapsed (Some rt) 0 s3 \<and> all_inputs_empty s3)"
    by simp
  show ?thesis
    by (rule run_test_run [OF mode start pre assms(1) none assms(2) stop post])
qed

text \<open>
  Claim C2, as stated: the loop of \<^verbatim>\<open>run_test\<close> ends when the budget elapses or when
  every input double reports itself empty, whichever comes first. The loop skips the
  test of the inputs while the budget has not elapsed, and ends by the inputs alone once
  it has. With readings of the clock 10 seconds apart: under a budget of 5 seconds, which
  has elapsed at the end of the first iteration, a node whose input is exhausted by the
  third step runs three iterations; under a budget of 25 seconds a node whose input is
  exhausted by the first step runs three iterations as well.
\<close>

theorem run_test_needs_budget_and_exhausted_inputs:
  "budget_elapsed (Some 5) 0
     (snd (priv_execute (draining_methods 3) (PyDict []) (input_node\<lparr>clock_reads := 1\<rparr>)))
   \<and> run_test (draining_methods 3) (Some 5) input_node =
       Some (Inr [(LOGGING_DATASET, [])],
             input_node\<lparr>user := 3, clock_reads := 4,
                        inputs := [(''input'', \<lparr>input_values = [], empty = True\<rparr>)]\<rparr>)
   \<and> all_inputs_empty
       (snd (priv_execute (draining_methods 1) (PyDict []) (input_node\<lparr>clock_reads := 1\<rparr>)))
   \<and> run_test (draining_methods 1) (Some 25) input_node =
       Some (Inr [(LOGGING_DATASET, [])],
             input_node\<lparr>user := 3, clock_reads := 4,
                        inputs := [(''input'', \<lparr>input_values = [], empty = True\<rparr>)]\<rparr>)"
proof -
  let ?final = "input_node\<lparr>user := 3, clock_reads := 4,
                        inputs := [(''input'', \<lparr>input_values = [], empty = True\<rparr>)]\<rparr>"
  have a1: "budget_elapsed (Some 5) 0
     (snd (priv_execute (draining_methods 3) (PyDict []) (input_node\<lparr>clock_reads := 1\<rparr>)))"
    by (simp add: budget_elapsed_def draining_methods_def input_node_def test_node_def)
  have b1: "all_inputs_empty
       (snd (priv_execute (draining_methods 1) (PyDict []) (input_node\<lparr>clock_reads := 1\<rparr>)))"
    by (simp add: all_inputs_empty_def draining_methods_def input_node_def test_node_def)
  let ?a2 = "input_node\<lparr>user := 2, clock_reads := 3\<rparr>"
  let ?a3 = "input_node\<lparr>user := 3, clock_reads := 3,
                        inputs := [(''input'', \<lparr>input_values = [], empty = True\<rparr>)]\<rparr>"
  have a_steps: "run_test_steps (draining_methods 3) (Some 5) 0 (Suc (Suc 0))
                   (input_node\<lparr>clock_reads := 1\<rparr>) = Some ([PyNone, PyNone], ?a2)"
    by (simp add: draining_methods_def input_node_def test_node_def end_of_iteration_def
          time_time_def all_inputs_empty_def)
  have a_last: "priv_execute (draining_methods 3) (params ?a2) ?a2 = (Inr PyNone, ?a3)"
    by (simp add: draining_methods_def input_node_def test_node_def)
  have a_stop: "budget_elapsed (Some 5) 0 ?a3 \<and> all_inputs_empty ?a3"
    by (simp add: budget_elapsed_def all_inputs_empty_def input_node_def test_node_def)
  have a_end: "end_of_iteration (Some 5) 0 PyNone ?a3 = (PyBool False, ?final)"
    by (simp add: end_of_iteration_def time_time_def all_inputs_empty_def input_node_def
          test_node_def)
  have a: "run_test (draining_methods 3) (Some 5) input_node = Some (Inr [(LOGGING_DATASET, [])], ?final)"
    using draining_run [OF a_steps a_last a_stop]
    by (simp add: a_end) (simp add: input_node_def test_node_def FakeDatasetOutput_init_def)
  let ?b2 = "input_node\<lparr>user := 2, clock_reads := 3,
                        inputs := [(''input'', \<lparr>input_values = [], empty = True\<rparr>)]\<rparr>"
  have b_steps: "run_test_steps (draining_methods 1) (Some 25) 0 (Suc (Suc 0))
                   (input_node\<lparr>clock_reads := 1\<rparr>) = Some ([PyNone, PyNone], ?b2)"
    by (simp add: draining_methods_def input_node_def test_node_def end_of_iteration_def
          time_time_def all_inputs_empty_def)
  have b_last: "priv_execute (draining_methods 1) (params ?b2) ?b2 = (Inr PyNone, ?a3)"
    by (simp add: draining_methods_def input_node_def test_node_def)
  have b_stop: "budget_elapsed (Some 25) 0 ?a3 \<and> all_inputs_empty ?a3"
    by (simp add: budget_elapsed_def all_inputs_empty_def input_node_def test_node_def)
  have b_end: "end_of_iteration (Some 25) 0 PyNone ?a3 = (PyBool False, ?final)"
    by (simp add: end_of_iteration_def time_time_def all_inputs_empty_def input_node_def
          test_node_def)
  have b: "run_test (draining_methods 1) (Some 25) input_node = Some (Inr [(LOGGING_DATASET, [])], ?final)"
    using draining_run [OF b_steps b_last b_stop]
    by (simp add: b_end) (simp add: input_node_def test_node_def FakeDatasetOutput_init_def)
  from a1 a b1 b show ?thesis
    by blast
qed

text \<open>
  Claim C2, amended. For every node in test mode, \<^verbatim>\<open>run_test\<close> runs the step at least
  once and leaves the loop at the end of the first iteration where the step has returned
  \<^verbatim>\<open>False\<close>, or where the budget is absent or has elapsed and, at the same time, the
  node has at least one input double and every input double reports itself empty. Neither
  the budget elapsing alone nor the inputs being exhausted before it has elapsed ends the
  loop. \<^verbatim>\<open>run_test\<close> then runs the post-loop hook and returns, for each output name,
  the values held by that output's double.
\<close>

theorem run_test_ends_when_budget_elapsed_and_inputs_empty:
  assumes "test self"
    and "time_time self = (start_time, s0)"
    and "priv_pre_loop_hook m (params s0) s0 = (Inr (), s1)"
    and "run_test_steps m runtime start_time k s1 = Some (rls, s2)"
    and "PyBool False \<notin> set rls"
    and "priv_execute m (params s2) s2 = (Inr r, s3)"
    and "r = PyBool False \<or> (budget_elapsed runtime start_time s3 \<and> all_inputs_empty s3)"
    and "priv_post_loop_hook m (params (snd (end_of_iteration runtime start_time r s3)))
           (snd (end_of_iteration runtime start_time r s3)) = (Inr (), s5)"
  shows "run_test m runtime self =
           Some (Inr (map (\<lambda>(dataset_name, output). (dataset_name, values output)) (outputs s5)), s5)
         \<and> (\<forall>r' s. fst (end_of_iteration runtime start_time r' s) =
                     (if budget_elapsed runtime start_time s \<and> all_inputs_empty s
                      then PyBool False else r'))"
  using run_test_run [OF assms] by (simp add: end_of_iteration_run_loop)

theorem run_test_ends_when_budget_elapsed_and_inputs_empty_witness:
  "run_test (draining_methods 1) None input_node =
     Some (Inr [(LOGGING_DATASET, [])],
           input_node\<lparr>user := 1, clock_reads := 1,
                      inputs := [(''input'', \<lparr>input_values = [], empty = True\<rparr>)]\<rparr>)"
proof -
  let ?s1 = "input_node\<lparr>clock_reads := 1\<rparr>"
  let ?s3 = "input_node\<lparr>user := 1, clock_reads := 1,
                      inputs := [(''input'', \<lparr>input_values = [], empty = True\<rparr>)]\<rparr>"
  have mode: "test input_node"
    by (simp add: input_node_def test_node_def)
  have start: "time_time input_node = (0, ?s1)"
    by (simp add: time_time_def input_node_def test_node_def)
  have pre: "priv_pre_loop_hook (draining_methods 1) (params ?s1) ?s1 = (Inr (), ?s1)"
    by (simp add: draining_methods_def default_hook_def)
  have steps: "run_test_steps (draining_methods 1) None 0 0 ?s1 = Some ([], ?s1)"
    by simp
  have none: "PyBool False \<notin> set []"
    by simp
  have last: "priv_execute (draining_methods 1) (params ?s1) ?s1 = (Inr PyNone, ?s3)"
    by (simp add: draining_methods_def input_node_def test_node_def)
  have stop: "PyNone = PyBool False \<or> (budget_elapsed None 0 ?s3 \<and> all_inputs_empty ?s3)"
    by (simp add: budget_elapsed_def all_inputs_empty_def input_node_def test_node_def)
  have iter: "end_of_iteration None 0 PyNone ?s3 = (PyBool False, ?s3)"
    by (simp add: end_of_iteration_def all_inputs_empty_def input_node_def test_node_def)
  have post: "priv_post_loop_hook (draining_methods 1)
                (params (snd (end_of_iteration None 0 PyNone ?s3)))
                (snd (end_of_iteration None 0 PyNone ?s3)) = (Inr (), ?s3)"
    unfolding iter snd_conv by (simp add: draining_methods_def default_hook_def)
  have "run_test (draining_methods 1) None input_node =
          Some (Inr (map (\<lambda>(dataset_name, output). (dataset_name, values output)) (outputs ?s3)),
                ?s3)"
    using run_test_ends_when_budget_elapsed_and_inputs_empty
            [OF mode start pre steps none last stop post]
    by (rule conjunct1)
  then show ?thesis
    by (simp add: input_node_def test_node_def FakeDatasetOutput_init_def)
qed

section \<open>Results about aineko/core/config_loader.py\<close>

subsection \<open>Loops that stop at the first failure\<close>

lemma list_all2_in_right:
  "list_all2 P xs ys \<Longrightarrow> y \<in> set ys \<Longrightarrow> \<exists>x \<in> set xs. P x y"
  by (induction rule: list_all2_induct) auto


lemma for_each_Inr_D:
  "for_each f xs = Inr ys \<Longrightarrow> list_all2 (\<lambda>x y. f x = Inr y) xs ys"
  by (induction xs arbitrary: ys) (auto split: sum.splits)

lemma for_each_Inr_I:
  "list_all2 (\<lambda>x y. f x = Inr y) xs ys \<Longrightarrow> for_each f xs = Inr ys"
  by (induction rule: list_all2_induct) auto

lemma for_each_Inr_iff:
  "for_each f xs = Inr ys \<longleftrightarrow> list_all2 (\<lambda>x y. f x = Inr y) xs ys"
  by (rule iffI) (erule for_each_Inr_D, erule for_each_Inr_I)




subsection \<open>Injection into parameter trees\<close>

lemma inject_no_placeholder:
  "re_search s = None \<Longrightarrow> inject_env_vars (Suc depth) env (PyStr s) = Inr (PyStr s)"
  by simp

lemma inject_str_result:
  "inject_env_vars depth env (PyStr s) = Inr v \<Longrightarrow> \<exists>s'. v = PyStr s' \<and> re_search s' = None"
proof (induction depth arbitrary: s)
  case 0
  then show ?case by simp
next
  case (Suc depth)
  then show ?case
    by (auto split: option.splits)
qed

lemma inject_idem:
  "inject_env_vars depth env t = Inr t' \<Longrightarrow> inject_env_vars depth env t' = Inr t'"
proof (induction depth arbitrary: t t')
  case 0
  then show ?case by simp
next
  case (Suc depth)
  show ?case
  proof (cases t)
    case (PyStr s)
    with Suc.prems obtain s' where "t' = PyStr s'" "re_search s' = None"
      using inject_str_result by blast
    then show ?thesis by simp
  next
    case (PyList xs)
    with Suc.prems obtain ys where ys: "t' = PyList ys"
      "list_all2 (\<lambda>x y. inject_env_vars depth env x = Inr y) xs ys"
      by (auto split: sum.splits simp add: for_each_Inr_iff)
    from ys(2) have "list_all2 (\<lambda>x y. inject_env_vars depth env x = Inr y) ys ys"
      using Suc.IH by (induction rule: list_all2_induct) auto
    then have "for_each (\<lambda>v. inject_env_vars depth env v) ys = Inr ys"
      by (rule for_each_Inr_I)
    with ys(1) show ?thesis
      by simp
  next
    case (PyDict kvs)
    let ?f = "\<lambda>(k, v). case inject_env_vars depth env v of Inl e \<Rightarrow> Inl e | Inr v' \<Rightarrow> Inr (k, v')"
    from PyDict Suc.prems obtain kvs' where kvs': "t' = PyDict kvs'"
      "list_all2 (\<lambda>x y. ?f x = Inr y) kvs kvs'"
      by (auto split: sum.splits simp add: for_each_Inr_iff)
    from kvs'(2) have "list_all2 (\<lambda>x y. ?f x = Inr y) kvs' kvs'"
      using Suc.IH by (induction rule: list_all2_induct) (auto split: sum.splits)
    then have "for_each ?f kvs' = Inr kvs'"
      by (rule for_each_Inr_I)
    with kvs'(1) show ?thesis
      by simp
  qed (use Suc.prems in auto)
qed

lemma inject_leaves_clean:
  "inject_env_vars depth env t = Inr t' \<Longrightarrow> s \<in> set (string_leaves t') \<Longrightarrow> re_search s = None"
proof (induction depth arbitrary: t t')
  case 0
  then show ?case by simp
next
  case (Suc depth)
  show ?case
  proof (cases t)
    case (PyStr s0)
    with Suc.prems(1) obtain s' where "t' = PyStr s'" "re_search s' = None"
      using inject_str_result by blast
    with Suc.prems(2) show ?thesis by simp
  next
    case (PyList xs)
    with Suc.prems(1) obtain ys where ys: "t' = PyList ys"
      "list_all2 (\<lambda>x y. inject_env_vars depth env x = Inr y) xs ys"
      by (auto split: sum.splits simp add: for_each_Inr_iff)
    from ys(1) Suc.prems(2) obtain y where y: "y \<in> set ys" "s \<in> set (string_leaves y)"
      by auto
    from ys(2) y(1) obtain x where "inject_env_vars depth env x = Inr y"
      using list_all2_in_right [of "\<lambda>x y. inject_env_vars depth env x = Inr y" xs ys y] by blast
    with y(2) Suc.IH show ?thesis by blast
  next
    case (PyDict kvs)
    let ?f = "\<lambda>(k, v). case inject_env_vars depth env v of Inl e \<Rightarrow> Inl e | Inr v' \<Rightarrow> Inr (k, v')"
    from PyDict Suc.prems(1) obtain kvs' where kvs': "t' = PyDict kvs'"
      "list_all2 (\<lambda>x y. ?f x = Inr y) kvs kvs'"
      by (auto split: sum.splits simp add: for_each_Inr_iff)
    from kvs'(1) Suc.prems(2) obtain k y where y: "(k, y) \<in> set kvs'" "s \<in> set (string_leaves y)"
      by auto
    from kvs'(2) y(1) obtain x where "?f x = Inr (k, y)"
      using list_all2_in_right [of "\<lambda>x y. ?f x = Inr y" kvs kvs' "(k, y)"] by blast
    then obtain v where "inject_env_vars depth env v = Inr y"
      by (cases x) (auto split: sum.splits)
    with y(2) Suc.IH show ?thesis by blast
  qed (use Suc.prems in auto)
qed











subsection \<open>Strings written as text and placeholders\<close>




















subsection \<open>Strings whose placeholders are replaced one name at a time\<close>



subsection \<open>The first leaf that fails\<close>








text \<open>
  Claim C6. Whenever injection succeeds on a parameter tree, injecting the result again
  returns the result itself; no string leaf of the result contains a placeholder; and a
  string without a placeholder is returned unchanged.
\<close>

theorem inject_env_vars_idempotent:
  "(inject_env_vars depth env t = Inr t' \<longrightarrow>
      inject_env_vars depth env t' = Inr t'
      \<and> (\<forall>s \<in> set (string_leaves t'). re_search s = None))
   \<and> (re_search s = None \<longrightarrow> inject_env_vars (Suc depth) env (PyStr s) = Inr (PyStr s))"
  using inject_idem [of depth env t t'] inject_leaves_clean [of depth env t t']
    inject_no_placeholder [of s depth env]
  by blast

theorem inject_env_vars_idempotent_witness:
  "inject_env_vars 4 example_env example_tree = Inr injected_tree
   \<and> inject_env_vars 4 example_env injected_tree = Inr injected_tree
   \<and> re_search ''p80'' = None
   \<and> inject_env_vars 4 example_env (PyStr ''plain {text}'') = Inr (PyStr ''plain {text}'')"
proof -
  have first: "inject_env_vars 4 example_env example_tree = Inr injected_tree"
    by (simp add: eval_nat_numeral example_env_def example_tree_def injected_tree_def
          placeholder_name_def)
  have leaf: "''p80'' \<in> set (string_leaves injected_tree)"
    by (simp add: injected_tree_def)
  have plain: "re_search ''plain {text}'' = None"
    by simp
  from first inject_env_vars_idempotent [of 4 example_env example_tree injected_tree]
  have again: "inject_env_vars 4 example_env injected_tree = Inr injected_tree
      \<and> (\<forall>s \<in> set (string_leaves injected_tree). re_search s = None)"
    by blast
  with leaf have clean: "re_search ''p80'' = None"
    by blast
  from plain
    inject_env_vars_idempotent [of 3 example_env example_tree injected_tree "''plain {text}''"]
  have "inject_env_vars 4 example_env (PyStr ''plain {text}'') = Inr (PyStr ''plain {text}'')"
    by (simp add: eval_nat_numeral)
  with first again clean show ?thesis
    by blast
qed



section \<open>Results about inject_env_vars on the caller's objects\<close>

subsection \<open>Injection of a string does not depend on the depth allowed\<close>

lemma inject_str_unfold:
  "inject_env_vars (Suc d) env (PyStr s) =
     (case re_search s of
        None \<Rightarrow> Inr (PyStr s)
      | Some m \<Rightarrow>
          (case env (placeholder_name m) of
             None \<Rightarrow> Inl (missing_variable (placeholder_name m))
           | Some val \<Rightarrow> inject_env_vars d env (PyStr (str_replace m val s))))"
  by simp

lemma inject_str_mono:
  "inject_env_vars d env (PyStr s) = Inr v \<Longrightarrow> inject_env_vars (Suc d) env (PyStr s) = Inr v"
proof (induction d arbitrary: s)
  case 0
  then show ?case by simp
next
  case (Suc d)
  show ?case
  proof (cases "re_search s")
    case None
    with Suc.prems have "v = PyStr s" by simp
    with None show ?thesis by simp
  next
    case (Some m)
    show ?thesis
    proof (cases "env (placeholder_name m)")
      case None
      with Some Suc.prems show ?thesis by simp
    next
      case (Some val)
      with \<open>re_search s = Some m\<close> Suc.prems
      have "inject_env_vars d env (PyStr (str_replace m val s)) = Inr v"
        by simp
      then have "inject_env_vars (Suc d) env (PyStr (str_replace m val s)) = Inr v"
        by (rule Suc.IH)
      with \<open>re_search s = Some m\<close> Some show ?thesis
        by (simp only: inject_str_unfold [of "Suc d"] option.case)
    qed
  qed
qed

lemma inject_str_mono_add:
  "inject_env_vars d env (PyStr s) = Inr v \<Longrightarrow> inject_env_vars (d + k) env (PyStr s) = Inr v"
  by (induction k) (simp_all only: add_0_right add_Suc_right inject_str_mono)

lemma inject_str_det:
  assumes "inject_env_vars d env (PyStr s) = Inr v" and "inject_env_vars d' env (PyStr s) = Inr v'"
  shows "v = v'"
proof -
  from assms(1) have "inject_env_vars (d + d') env (PyStr s) = Inr v"
    by (rule inject_str_mono_add)
  moreover from assms(2) have "inject_env_vars (d' + d) env (PyStr s) = Inr v'"
    by (rule inject_str_mono_add)
  ultimately show ?thesis
    by (simp add: add.commute)
qed

subsection \<open>The relations between a store and its successor\<close>

lemma injection_of_clean:
  "injection_of env v m \<Longrightarrow> injection_of env m n \<Longrightarrow> n = m"
proof -
  assume a: "injection_of env v m" and b: "injection_of env m n"
  from a obtain s m' d where m: "m = RStr m'" "inject_env_vars d env (PyStr s) = Inr (PyStr m')"
    by (auto simp add: injection_of_def)
  from m(2) have clean: "re_search m' = None"
    using inject_str_result by fastforce
  from b m(1) obtain n' d' where n: "n = RStr n'" "inject_env_vars d' env (PyStr m') = Inr (PyStr n')"
    by (auto simp add: injection_of_def)
  from n(2) clean have "n' = m'"
    by (cases d') simp_all
  with n(1) m(1) show ?thesis by simp
qed

lemma injection_of_det:
  "injection_of env v m \<Longrightarrow> injection_of env v n \<Longrightarrow> n = m"
  by (auto simp add: injection_of_def dest: inject_str_det)

lemma injection_of_is_str: "injection_of env v m \<Longrightarrow> is_str v \<and> is_str m"
  by (auto simp add: injection_of_def is_str_def)

lemma slot_kept_refl [simp]: "slot_kept env v v"
  by (simp add: slot_kept_def)

lemma slot_kept_trans: "slot_kept env u v \<Longrightarrow> slot_kept env v w \<Longrightarrow> slot_kept env u w"
  using injection_of_clean by (fastforce simp add: slot_kept_def)

lemma injected_slot_kept: "injected env v r \<Longrightarrow> slot_kept env v r"
  by (auto simp add: injected_def slot_kept_def split: if_splits)

lemma injected_then_kept: "injected env v c \<Longrightarrow> slot_kept env c n \<Longrightarrow> n = c"
proof -
  assume a: "injected env v c" and b: "slot_kept env c n"
  show "n = c"
  proof (cases "is_str v")
    case True
    with a have "injection_of env v c" by (simp add: injected_def)
    with b show ?thesis
      using injection_of_clean by (auto simp add: slot_kept_def)
  next
    case False
    with a have "c = v" by (simp add: injected_def)
    with False b show ?thesis
      using injection_of_is_str by (auto simp add: slot_kept_def)
  qed
qed

lemma key_step:
  assumes "slot_kept env v live" and "slot_kept env v arg" and "injected env arg r"
  shows "injected env v r \<and> slot_kept env live r"
proof (cases "is_str v")
  case False
  with assms(1,2) have "live = v" "arg = v"
    using injection_of_is_str by (auto simp add: slot_kept_def)
  with False assms(3) show ?thesis
    by (simp add: injected_def)
next
  case True
  have arg_str: "is_str arg"
    using assms(2) True injection_of_is_str by (auto simp add: slot_kept_def)
  with assms(3) have r: "injection_of env arg r"
    by (simp add: injected_def)
  have vr: "injection_of env v r"
  proof (cases "arg = v")
    case True
    with r show ?thesis by simp
  next
    case False
    with assms(2) have va: "injection_of env v arg" by (simp add: slot_kept_def)
    from this r have "r = arg" by (rule injection_of_clean)
    with va show ?thesis by simp
  qed
  have "slot_kept env live r"
  proof (cases "live = v")
    case True
    with vr show ?thesis by (simp add: slot_kept_def)
  next
    case False
    with assms(1) have "injection_of env v live" by (simp add: slot_kept_def)
    from this vr have "r = live" by (rule injection_of_det)
    then show ?thesis by simp
  qed
  with vr True show ?thesis
    by (simp add: injected_def)
qed

lemma obj_kept_refl [simp]: "obj_kept env obj obj"
  by (cases obj) (simp_all add: list_all2_refl)

lemma obj_kept_trans: "obj_kept env o1 o2 \<Longrightarrow> obj_kept env o2 o3 \<Longrightarrow> obj_kept env o1 o3"
proof (cases o1; cases o2; cases o3)
qed (auto intro: list_all2_trans [where ?P1.0 = "slot_kept env" and ?P2.0 = "slot_kept env"] slot_kept_trans)

lemma store_kept_refl [simp]: "store_kept env h h"
  by (simp add: store_kept_def option.rel_refl)

lemma store_kept_trans: "store_kept env h1 h2 \<Longrightarrow> store_kept env h2 h3 \<Longrightarrow> store_kept env h1 h3"
  unfolding store_kept_def
proof
  fix a
  assume a: "\<forall>a. rel_option (obj_kept env) (h1 a) (h2 a)" and b: "\<forall>a. rel_option (obj_kept env) (h2 a) (h3 a)"
  from a have "rel_option (obj_kept env) (h1 a) (h2 a)" by blast
  moreover from b have "rel_option (obj_kept env) (h2 a) (h3 a)" by blast
  ultimately show "rel_option (obj_kept env) (h1 a) (h3 a)"
    by (cases "h1 a"; cases "h2 a"; cases "h3 a") (auto intro: obj_kept_trans)
qed

lemma store_kept_wf: "store_kept env h h' \<Longrightarrow> wf_store h \<Longrightarrow> wf_store h'"
  unfolding store_kept_def wf_store_def
proof (intro allI impI)
  fix a kvs'
  assume k: "\<forall>a. rel_option (obj_kept env) (h a) (h' a)"
    and w: "\<forall>a kvs. h a = Some (DictObj kvs) \<longrightarrow> distinct (map fst kvs)"
    and h': "h' a = Some (DictObj kvs')"
  from k have "rel_option (obj_kept env) (h a) (h' a)" by blast
  with h' obtain obj where obj: "h a = Some obj" "obj_kept env obj (DictObj kvs')"
    by (cases "h a") auto
  then obtain kvs where "obj = DictObj kvs" "map fst kvs' = map fst kvs"
    by (cases obj) auto
  with obj(1) w show "distinct (map fst kvs')" by simp
qed

lemma store_kept_update:
  "h a = Some obj \<Longrightarrow> obj_kept env obj obj' \<Longrightarrow> store_kept env h (h(a \<mapsto> obj'))"
  by (simp add: store_kept_def option.rel_refl)

lemma store_kept_at:
  "store_kept env h h' \<Longrightarrow> h a = Some obj \<Longrightarrow> \<exists>obj'. h' a = Some obj' \<and> obj_kept env obj obj'"
  unfolding store_kept_def
  by (metis option.rel_cases option.distinct(1) option.inject)


subsection \<open>The loops keep the store\<close>

lemma keeps_storeD:
  "keeps_store env f \<Longrightarrow> wf_store h \<Longrightarrow> f v h = (res, h') \<Longrightarrow>
     store_kept env h h' \<and> (\<forall>r. res = Inr r \<longrightarrow> injected env v r)"
  unfolding keeps_store_def by blast

lemma update_at:
  "distinct (map fst al) \<Longrightarrow> j < length al \<Longrightarrow> fst (al ! j) = k \<Longrightarrow>
     AList.update k v al = al[j := (k, v)]"
proof (induction al arbitrary: j)
  case Nil
  then show ?case by simp
next
  case (Cons p al)
  show ?case
  proof (cases j)
    case 0
    with Cons.prems show ?thesis by (cases p) simp
  next
    case (Suc j')
    with Cons.prems have "fst p \<noteq> k"
      by (cases p) (auto simp add: image_iff)
    with Suc Cons show ?thesis by (cases p) simp
  qed
qed

lemma kept_dict_at:
  assumes "store_kept env h h'" and "h a = Some (DictObj kvs)"
  shows "\<exists>kvs'. h' a = Some (DictObj kvs') \<and> map fst kvs' = map fst kvs \<and> length kvs' = length kvs
           \<and> (\<forall>i<length kvs. slot_kept env (snd (kvs ! i)) (snd (kvs' ! i)))"
proof -
  from store_kept_at [OF assms] obtain obj' where
    obj': "h' a = Some obj'" "obj_kept env (DictObj kvs) obj'"
    by blast
  then obtain kvs' where k: "obj' = DictObj kvs'" "map fst kvs' = map fst kvs"
    "list_all2 (slot_kept env) (map snd kvs) (map snd kvs')"
    by (cases obj') auto
  from k(2) have len: "length kvs' = length kvs"
    using length_map by metis
  from k(3) len have "\<forall>i<length kvs. slot_kept env (snd (kvs ! i)) (snd (kvs' ! i))"
    by (auto simp add: list_all2_conv_all_nth)
  with obj'(1) k(1,2) len show ?thesis by blast
qed

lemma kept_list_at:
  assumes "store_kept env h h'" and "h a = Some (ListObj xs)"
  shows "\<exists>xs'. h' a = Some (ListObj xs') \<and> length xs' = length xs
           \<and> (\<forall>i<length xs. slot_kept env (xs ! i) (xs' ! i))"
proof -
  from store_kept_at [OF assms] obtain obj' where
    obj': "h' a = Some obj'" "obj_kept env (ListObj xs) obj'"
    by blast
  then obtain xs' where k: "obj' = ListObj xs'" "list_all2 (slot_kept env) xs xs'"
    by (cases obj') auto
  then show ?thesis
    using obj'(1) by (auto simp add: list_all2_conv_all_nth)
qed

lemma dict_loop_kept:
  assumes good: "keeps_store env f"
    and wf: "wf_store h0"
    and obj: "h0 a = Some (DictObj kvs0)"
  shows "store_kept env h0 h \<Longrightarrow> h a = Some (DictObj cur) \<Longrightarrow> n \<le> length kvs0 \<Longrightarrow>
         \<forall>i<n. injected env (snd (kvs0 ! i)) (snd (cur ! i)) \<Longrightarrow>
         dict_loop f a (drop n kvs0) h = (res, h') \<Longrightarrow>
         store_kept env h0 h'
         \<and> (res = Inr () \<longrightarrow>
              (\<exists>kvs'. h' a = Some (DictObj kvs')
                 \<and> list_all2 (injected env) (map snd kvs0) (map snd kvs')))"
proof (induction "length kvs0 - n" arbitrary: n h cur)
  case 0
  then have n: "n = length kvs0" by simp
  with "0.prems"(5) have res: "res = Inr ()" "h' = h" by simp_all
  from kept_dict_at [OF "0.prems"(1) obj] "0.prems"(2)
  have "length cur = length kvs0" by auto
  with n "0.prems"(4) have "list_all2 (injected env) (map snd kvs0) (map snd cur)"
    by (simp add: list_all2_conv_all_nth)
  with res "0.prems"(1,2) show ?case by blast
next
  case (Suc m)
  then have n: "n < length kvs0" by simp
  obtain k v where kv: "kvs0 ! n = (k, v)" by (cases "kvs0 ! n")
  with n have items: "drop n kvs0 = (k, v) # drop (Suc n) kvs0"
    by (simp add: Cons_nth_drop_Suc [symmetric])
  obtain r1 h1 where call: "f v h = (r1, h1)" by (cases "f v h")
  have wfh: "wf_store h"
    using store_kept_wf [OF Suc.prems(1) wf] .
  from keeps_storeD [OF good wfh call]
  have step: "store_kept env h h1" and ret: "\<forall>r. r1 = Inr r \<longrightarrow> injected env v r"
    by simp_all
  have kept1: "store_kept env h0 h1"
    using store_kept_trans [OF Suc.prems(1) step] .
  show ?case
  proof (cases r1)
    case (Inl e)
    with items call Suc.prems(5) have "res = Inl e" "h' = h1" by simp_all
    with kept1 show ?thesis by simp
  next
    case (Inr v')
    with ret have inj: "injected env v v'" by simp
    from kept_dict_at [OF kept1 obj] obtain cur1 where
      cur1: "h1 a = Some (DictObj cur1)" "map fst cur1 = map fst kvs0" "length cur1 = length kvs0"
        "\<forall>i<length kvs0. slot_kept env (snd (kvs0 ! i)) (snd (cur1 ! i))"
      by blast
    from kept_dict_at [OF step Suc.prems(2)] cur1(1) have
      cur_cur1: "length cur1 = length cur" "\<forall>i<length cur. slot_kept env (snd (cur ! i)) (snd (cur1 ! i))"
      by auto
    have wf1: "wf_store h1"
      using store_kept_wf [OF kept1 wf] .
    with cur1(1) have dist: "distinct (map fst cur1)"
      by (simp add: wf_store_def)
    from cur1(2) n kv cur1(3) have key: "fst (cur1 ! n) = k"
      by (metis fst_conv nth_map)
    let ?cur2 = "cur1[n := (k, v')]"
    have set: "dict_setitem a k v' h1 = h1(a \<mapsto> DictObj ?cur2)"
      using cur1(1,3) n update_at [OF dist _ key, of v']
      by (simp add: dict_setitem_def)
    from cur1(4) n have live: "slot_kept env v (snd (cur1 ! n))"
      using kv by (metis snd_conv)
    from key_step [OF live slot_kept_refl inj]
    have new: "slot_kept env (snd (cur1 ! n)) v'" by simp
    have keys2: "map fst ?cur2 = map fst cur1"
      using key n cur1(3) by (simp add: map_update) (metis list_update_id nth_map length_map)
    have "list_all2 (slot_kept env) (map snd cur1) (map snd ?cur2)"
      using new n cur1(3)
      by (auto simp add: list_all2_conv_all_nth nth_list_update)
    with keys2 have "obj_kept env (DictObj cur1) (DictObj ?cur2)"
      by simp
    with cur1(1) set have "store_kept env h1 (dict_setitem a k v' h1)"
      using store_kept_update by simp
    with kept1 have kept2: "store_kept env h0 (dict_setitem a k v' h1)"
      by (rule store_kept_trans)
    have cur2: "dict_setitem a k v' h1 a = Some (DictObj ?cur2)"
      using set by simp
    have inv2: "\<forall>i<Suc n. injected env (snd (kvs0 ! i)) (snd (?cur2 ! i))"
    proof (intro allI impI)
      fix i assume i: "i < Suc n"
      show "injected env (snd (kvs0 ! i)) (snd (?cur2 ! i))"
      proof (cases "i = n")
        case True
        with n cur1(3) kv inj show ?thesis by simp
      next
        case False
        with i have lt: "i < n" by simp
        with Suc.prems(4) have a: "injected env (snd (kvs0 ! i)) (snd (cur ! i))" by simp
        from lt n cur1(3) cur_cur1 have "slot_kept env (snd (cur ! i)) (snd (cur1 ! i))" by simp
        with a have "snd (cur1 ! i) = snd (cur ! i)" by (rule injected_then_kept)
        with a False show ?thesis by simp
      qed
    qed
    from Suc.hyps(2) have m: "m = length kvs0 - Suc n" by simp
    from n have le: "Suc n \<le> length kvs0" by simp
    from items call Inr Suc.prems(5)
    have run: "dict_loop f a (drop (Suc n) kvs0) (dict_setitem a k v' h1) = (res, h')"
      by simp
    show ?thesis
      by (rule Suc.hyps(1) [OF m kept2 cur2 le inv2 run])
  qed
qed

lemma list_loop_kept:
  assumes good: "keeps_store env f"
    and wf: "wf_store h0"
    and obj: "h0 a = Some (ListObj xs0)"
  shows "store_kept env h0 h \<Longrightarrow> h a = Some (ListObj cur) \<Longrightarrow> n \<le> length xs0 \<Longrightarrow>
         \<forall>i<n. injected env (xs0 ! i) (cur ! i) \<Longrightarrow>
         list_loop f a [n..<length xs0] h = (res, h') \<Longrightarrow>
         store_kept env h0 h'
         \<and> (res = Inr () \<longrightarrow>
              (\<exists>xs'. h' a = Some (ListObj xs') \<and> list_all2 (injected env) xs0 xs'))"
proof (induction "length xs0 - n" arbitrary: n h cur)
  case 0
  then have n: "n = length xs0" by simp
  with "0.prems"(5) have res: "res = Inr ()" "h' = h" by simp_all
  from kept_list_at [OF "0.prems"(1) obj] "0.prems"(2)
  have "length cur = length xs0" by auto
  with n "0.prems"(4) have "list_all2 (injected env) xs0 cur"
    by (simp add: list_all2_conv_all_nth)
  with res "0.prems"(1,2) show ?case by blast
next
  case (Suc m)
  then have n: "n < length xs0" by simp
  then have indices: "[n..<length xs0] = n # [Suc n..<length xs0]"
    by (simp add: upt_conv_Cons)
  from kept_list_at [OF Suc.prems(1) obj] Suc.prems(2) have
    cur: "length cur = length xs0" "\<forall>i<length xs0. slot_kept env (xs0 ! i) (cur ! i)"
    by auto
  obtain r1 h1 where call: "f (cur ! n) h = (r1, h1)" by (cases "f (cur ! n) h")
  have wfh: "wf_store h"
    using store_kept_wf [OF Suc.prems(1) wf] .
  from keeps_storeD [OF good wfh call]
  have step: "store_kept env h h1" and ret: "\<forall>r. r1 = Inr r \<longrightarrow> injected env (cur ! n) r"
    by simp_all
  have kept1: "store_kept env h0 h1"
    using store_kept_trans [OF Suc.prems(1) step] .
  show ?case
  proof (cases r1)
    case (Inl e)
    with indices call Suc.prems(2,5) n cur(1) have "res = Inl e" "h' = h1" by simp_all
    with kept1 show ?thesis by simp
  next
    case (Inr v')
    with ret have inj: "injected env (cur ! n) v'" by simp
    from kept_list_at [OF kept1 obj] obtain cur1 where
      cur1: "h1 a = Some (ListObj cur1)" "length cur1 = length xs0"
        "\<forall>i<length xs0. slot_kept env (xs0 ! i) (cur1 ! i)"
      by blast
    from kept_list_at [OF step Suc.prems(2)] cur1(1) have
      cur_cur1: "\<forall>i<length cur. slot_kept env (cur ! i) (cur1 ! i)"
      by auto
    let ?cur2 = "cur1[n := v']"
    have set: "list_setitem a n v' h1 = h1(a \<mapsto> ListObj ?cur2)"
      using cur1(1,2) n by (simp add: list_setitem_def)
    from cur1(3) n have live: "slot_kept env (xs0 ! n) (cur1 ! n)" by simp
    from cur(2) n have arg: "slot_kept env (xs0 ! n) (cur ! n)" by simp
    from key_step [OF live arg inj]
    have orig: "injected env (xs0 ! n) v'" and new: "slot_kept env (cur1 ! n) v'"
      by simp_all
    have "list_all2 (slot_kept env) cur1 ?cur2"
      using new n cur1(2)
      by (auto simp add: list_all2_conv_all_nth nth_list_update)
    then have "obj_kept env (ListObj cur1) (ListObj ?cur2)"
      by simp
    with cur1(1) set have "store_kept env h1 (list_setitem a n v' h1)"
      using store_kept_update by simp
    with kept1 have kept2: "store_kept env h0 (list_setitem a n v' h1)"
      by (rule store_kept_trans)
    have cur2: "list_setitem a n v' h1 a = Some (ListObj ?cur2)"
      using set by simp
    have inv2: "\<forall>i<Suc n. injected env (xs0 ! i) (?cur2 ! i)"
    proof (intro allI impI)
      fix i assume i: "i < Suc n"
      show "injected env (xs0 ! i) (?cur2 ! i)"
      proof (cases "i = n")
        case True
        with n cur1(2) orig show ?thesis by simp
      next
        case False
        with i have lt: "i < n" by simp
        with Suc.prems(4) have a: "injected env (xs0 ! i) (cur ! i)" by simp
        from lt n cur(1) cur_cur1 have "slot_kept env (cur ! i) (cur1 ! i)" by simp
        with a have "cur1 ! i = cur ! i" by (rule injected_then_kept)
        with a False show ?thesis by simp
      qed
    qed
    from Suc.hyps(2) have m: "m = length xs0 - Suc n" by simp
    from n have le: "Suc n \<le> length xs0" by simp
    from indices call Inr Suc.prems(2,5) n cur(1)
    have run: "list_loop f a [Suc n..<length xs0] (list_setitem a n v' h1) = (res, h')"
      by simp
    show ?thesis
      by (rule Suc.hyps(1) [OF m kept2 cur2 le inv2 run])
  qed
qed


subsection \<open>The method keeps the store\<close>

lemma store_str:
  "inject_env_vars_store depth env (RStr s) h = (res, h') \<Longrightarrow>
     h' = h \<and> (\<forall>r. res = Inr r \<longrightarrow>
                 (\<exists>s'. r = RStr s' \<and> inject_env_vars depth env (PyStr s) = Inr (PyStr s')))"
proof (induction depth arbitrary: s)
  case 0
  then show ?case by auto
next
  case (Suc depth)
  show ?case
  proof (cases "re_search s")
    case None
    with Suc.prems show ?thesis by auto
  next
    case (Some m)
    show ?thesis
    proof (cases "env (placeholder_name m)")
      case None
      with Some Suc.prems show ?thesis by auto
    next
      case (Some val)
      with \<open>re_search s = Some m\<close> Suc.prems
      have "inject_env_vars_store depth env (RStr (str_replace m val s)) h = (res, h')"
        by simp
      from Suc.IH [OF this] \<open>re_search s = Some m\<close> Some show ?thesis
        by simp
    qed
  qed
qed

lemma injected_non_str: "\<not> is_str v \<Longrightarrow> injected env v v"
  by (simp add: injected_def)

lemma inject_store_keeps: "keeps_store env (\<lambda>v h. inject_env_vars_store depth env v h)"
proof (induction depth)
  case 0
  show ?case by (auto simp add: keeps_store_def)
next
  case (Suc depth)
  let ?f = "\<lambda>v h. inject_env_vars_store depth env v h"
  show ?case
    unfolding keeps_store_def
  proof (intro allI impI)
    fix v h res h'
    assume wf: "wf_store h" and run: "inject_env_vars_store (Suc depth) env v h = (res, h')"
    show "store_kept env h h' \<and> (\<forall>r. res = Inr r \<longrightarrow> injected env v r)"
    proof (cases v)
      case (RStr s)
      from store_str [OF run [unfolded RStr]]
      have same: "h' = h" and "\<forall>r. res = Inr r \<longrightarrow> injection_of env (RStr s) r"
        unfolding injection_of_def by blast+
      with RStr show ?thesis
        by (simp add: injected_def is_str_def)
    next
      case (RRef a)
      show ?thesis
      proof (cases "h a")
        case None
        with RRef run show ?thesis
          by (auto simp add: injected_def is_str_def)
      next
        case (Some obj)
        show ?thesis
        proof (cases obj)
          case (DictObj kvs)
          obtain r0 h0 where loop: "dict_loop ?f a (drop 0 kvs) h = (r0, h0)"
            by (cases "dict_loop ?f a (drop 0 kvs) h")
          from Some DictObj have at: "h a = Some (DictObj kvs)" by simp
          have "store_kept env h h0"
            using dict_loop_kept [OF Suc wf at store_kept_refl at _ _ loop] by simp
          moreover from loop RRef at run have "h' = h0" "\<forall>r. res = Inr r \<longrightarrow> r = RRef a"
            by (auto split: sum.splits)
          ultimately show ?thesis
            using RRef by (auto simp add: injected_def is_str_def)
        next
          case (ListObj xs)
          obtain r0 h0 where loop: "list_loop ?f a [0..<length xs] h = (r0, h0)"
            by (cases "list_loop ?f a [0..<length xs] h")
          from Some ListObj have at: "h a = Some (ListObj xs)" by simp
          have "store_kept env h h0"
            using list_loop_kept [OF Suc wf at store_kept_refl at _ _ loop] by simp
          moreover from loop RRef at run have "h' = h0" "\<forall>r. res = Inr r \<longrightarrow> r = RRef a"
            by (auto split: sum.splits)
          ultimately show ?thesis
            using RRef by (auto simp add: injected_def is_str_def)
        qed
      qed
    qed (use run in \<open>auto simp add: injected_def is_str_def\<close>)
  qed
qed


subsection \<open>Trees whose leaves are related\<close>

lemma tree_rel_mono:
  "(\<And>s s'. R s s' \<Longrightarrow> S s s') \<Longrightarrow> tree_rel R t t' \<Longrightarrow> tree_rel S t t'"
proof (induction t arbitrary: t')
  case (PyList ts)
  from PyList.prems(2) obtain ts' where t': "t' = PyList ts'" "list_all2 (tree_rel R) ts ts'"
    by (cases t') auto
  from t'(2) have "list_all2 (tree_rel S) ts ts'"
    by (rule list.rel_mono_strong) (use PyList.IH PyList.prems(1) in blast)
  with t'(1) show ?case by simp
next
  case (PyDict kts)
  from PyDict.prems(2) obtain kts' where t': "t' = PyDict kts'"
    "list_all2 (\<lambda>p q. fst q = fst p \<and> tree_rel R (snd p) (snd q)) kts kts'"
    by (cases t') auto
  from t'(2) have "list_all2 (\<lambda>p q. fst q = fst p \<and> tree_rel S (snd p) (snd q)) kts kts'"
  proof (rule list.rel_mono_strong)
    fix p q assume "p \<in> set kts" "q \<in> set kts'" "fst q = fst p \<and> tree_rel R (snd p) (snd q)"
    then show "fst q = fst p \<and> tree_rel S (snd p) (snd q)"
      using PyDict.IH [of p "snd p" "snd q"] PyDict.prems(1)
      by (simp add: Basic_BNFs.snds.intros)
  qed
  with t'(1) show ?case by simp
next
  case (PyStr s)
  then show ?case by (cases t') auto
qed (cases t'; simp)+

lemma tree_rel_comp:
  "tree_rel R t1 t2 \<Longrightarrow> tree_rel S t2 t3 \<Longrightarrow> tree_rel (R OO S) t1 t3"
proof (induction t1 arbitrary: t2 t3)
  case (PyList ts)
  from PyList.prems(1) obtain ts2 where t2: "t2 = PyList ts2" "list_all2 (tree_rel R) ts ts2"
    by (cases t2) auto
  from PyList.prems(2) t2(1) obtain ts3 where t3: "t3 = PyList ts3" "list_all2 (tree_rel S) ts2 ts3"
    by (cases t3) auto
  from t2(2) t3(2) have "list_all2 (tree_rel R OO tree_rel S) ts ts3"
    by (auto simp add: list.rel_compp)
  then have "list_all2 (tree_rel (R OO S)) ts ts3"
    by (rule list.rel_mono_strong) (use PyList.IH in blast)
  with t3(1) show ?case by simp
next
  case (PyDict kts)
  let ?A = "\<lambda>p q. fst q = fst p \<and> tree_rel R (snd p) (snd q)"
  let ?B = "\<lambda>p q. fst q = fst p \<and> tree_rel S (snd p) (snd q)"
  from PyDict.prems(1) obtain k2 where t2: "t2 = PyDict k2" "list_all2 ?A kts k2"
    by (cases t2) auto
  from PyDict.prems(2) t2(1) obtain k3 where t3: "t3 = PyDict k3" "list_all2 ?B k2 k3"
    by (cases t3) auto
  from t2(2) t3(2) have "list_all2 (?A OO ?B) kts k3"
    by (auto simp add: list.rel_compp)
  then have "list_all2 (\<lambda>p q. fst q = fst p \<and> tree_rel (R OO S) (snd p) (snd q)) kts k3"
  proof (rule list.rel_mono_strong)
    fix p q assume p: "p \<in> set kts" and "(?A OO ?B) p q"
    then obtain m where "fst m = fst p" "tree_rel R (snd p) (snd m)"
      "fst q = fst m" "tree_rel S (snd m) (snd q)"
      by auto
    then show "fst q = fst p \<and> tree_rel (R OO S) (snd p) (snd q)"
      using PyDict.IH [of p "snd p" "snd m" "snd q"] p
      by (simp add: Basic_BNFs.snds.intros)
  qed
  with t3(1) show ?case by simp
next
  case (PyStr s)
  then show ?case by (cases t2; cases t3) auto
qed (cases t2; cases t3; simp)+

lemma tree_rel_single:
  assumes single: "\<And>s a b. R s a \<Longrightarrow> R s b \<Longrightarrow> a = b"
  shows "tree_rel R t t1 \<Longrightarrow> tree_rel R t t2 \<Longrightarrow> t1 = t2"
proof (induction t arbitrary: t1 t2)
  case (PyList ts)
  from PyList.prems(1) obtain ts1 where t1: "t1 = PyList ts1" "list_all2 (tree_rel R) ts ts1"
    by (cases t1) auto
  from PyList.prems(2) obtain ts2 where t2: "t2 = PyList ts2" "list_all2 (tree_rel R) ts ts2"
    by (cases t2) auto
  have "ts1 = ts2"
  proof (rule nth_equalityI)
    show "length ts1 = length ts2"
      using t1(2) t2(2) by (simp add: list_all2_lengthD [symmetric])
  next
    fix i assume "i < length ts1"
    with t1(2) t2(2) have "ts ! i \<in> set ts" "tree_rel R (ts ! i) (ts1 ! i)" "tree_rel R (ts ! i) (ts2 ! i)"
      by (auto simp add: list_all2_conv_all_nth)
    then show "ts1 ! i = ts2 ! i"
      by (rule PyList.IH)
  qed
  with t1(1) t2(1) show ?case by simp
next
  case (PyDict kts)
  let ?A = "\<lambda>p q. fst q = fst p \<and> tree_rel R (snd p) (snd q)"
  from PyDict.prems(1) obtain k1 where t1: "t1 = PyDict k1" "list_all2 ?A kts k1"
    by (cases t1) auto
  from PyDict.prems(2) obtain k2 where t2: "t2 = PyDict k2" "list_all2 ?A kts k2"
    by (cases t2) auto
  have "k1 = k2"
  proof (rule nth_equalityI)
    show "length k1 = length k2"
      using t1(2) t2(2) by (simp add: list_all2_lengthD [symmetric])
  next
    fix i assume "i < length k1"
    with t1(2) t2(2) have i: "kts ! i \<in> set kts" "?A (kts ! i) (k1 ! i)" "?A (kts ! i) (k2 ! i)"
      by (auto simp add: list_all2_conv_all_nth)
    then have "snd (k1 ! i) = snd (k2 ! i)"
      using PyDict.IH [of "kts ! i" "snd (kts ! i)" "snd (k1 ! i)" "snd (k2 ! i)"]
      by (simp add: Basic_BNFs.snds.intros)
    with i show "k1 ! i = k2 ! i"
      by (simp add: prod_eq_iff)
  qed
  with t1(1) t2(1) show ?case by simp
next
  case (PyStr s)
  then show ?case using single by (cases t1; cases t2) auto
qed (cases t1; cases t2; simp)+


lemma inj_str_clean: "inj_str env s m \<Longrightarrow> kept_str env m n \<Longrightarrow> n = m"
proof -
  assume a: "inj_str env s m" and b: "kept_str env m n"
  from a have "re_search m = None"
    using inject_str_result by (fastforce simp add: inj_str_def)
  then have "inject_env_vars d env (PyStr m) = Inr (PyStr n) \<Longrightarrow> n = m" for d
    by (cases d) simp_all
  with b show ?thesis
    by (auto simp add: kept_str_def inj_str_def)
qed

lemma inj_str_single: "inj_str env s a \<Longrightarrow> inj_str env s b \<Longrightarrow> a = b"
  by (auto simp add: inj_str_def dest: inject_str_det)

lemma kept_then_inj: "kept_str env s m \<Longrightarrow> inj_str env m n \<Longrightarrow> inj_str env s n"
proof -
  assume a: "kept_str env s m" and b: "inj_str env m n"
  show ?thesis
  proof (cases "m = s")
    case True
    with b show ?thesis by simp
  next
    case False
    with a have sm: "inj_str env s m" by (simp add: kept_str_def)
    from b have "kept_str env m n" by (simp add: kept_str_def)
    with sm have "n = m" by (rule inj_str_clean)
    with sm show ?thesis by simp
  qed
qed

lemma tree_injected_then_kept:
  assumes "tree_injected env t t'" and "tree_kept env t' t''"
  shows "t'' = t'"
proof -
  from assms have "tree_rel (inj_str env OO kept_str env) t t''"
    unfolding tree_injected_def tree_kept_def by (rule tree_rel_comp)
  then have "tree_rel (inj_str env) t t''"
  proof (rule tree_rel_mono [rotated])
    fix s s' assume "(inj_str env OO kept_str env) s s'"
    then obtain m where m: "inj_str env s m" "kept_str env m s'" by auto
    then have "s' = m" by (rule inj_str_clean)
    with m(1) show "inj_str env s s'" by simp
  qed
  moreover from assms(1) have "tree_rel (inj_str env) t t'"
    by (simp add: tree_injected_def)
  ultimately show ?thesis
    using tree_rel_single [of "inj_str env" t t'' t'] inj_str_single by blast
qed

lemma tree_kept_then_injected:
  assumes "tree_kept env t t1" and "tree_injected env t1 t2"
  shows "tree_injected env t t2"
proof -
  from assms have "tree_rel (kept_str env OO inj_str env) t t2"
    unfolding tree_injected_def tree_kept_def by (rule tree_rel_comp)
  then have "tree_rel (inj_str env) t t2"
  proof (rule tree_rel_mono [rotated])
    fix s s' assume "(kept_str env OO inj_str env) s s'"
    then show "inj_str env s s'"
      using kept_then_inj by auto
  qed
  then show ?thesis by (simp add: tree_injected_def)
qed

subsection \<open>What a value stands for, from store to store\<close>

lemma list_all2_ex_split:
  "list_all2 (\<lambda>a b. \<exists>c. P a c \<and> Q b c) xs ys \<Longrightarrow>
     \<exists>zs. list_all2 P xs zs \<and> list_all2 Q ys zs"
proof (induction rule: list_all2_induct)
  case Nil
  then show ?case by simp
next
  case (Cons x xs y ys)
  then obtain c zs where "P x c" "Q y c" "list_all2 P xs zs" "list_all2 Q ys zs"
    by blast
  then have "list_all2 P (x # xs) (c # zs) \<and> list_all2 Q (y # ys) (c # zs)"
    by simp
  then show ?case by blast
qed

lemma slot_kept_non_str: "slot_kept env v v' \<Longrightarrow> \<not> is_str v \<Longrightarrow> v' = v"
  using injection_of_is_str by (auto simp add: slot_kept_def)

lemma repr_kept:
  "store_kept env h h' \<Longrightarrow> repr h v t \<Longrightarrow> slot_kept env v v' \<Longrightarrow>
     \<exists>t'. repr h' v' t' \<and> tree_kept env t t'"
proof (induction t arbitrary: v v')
  case PyNone
  then have "v' = RNone" using slot_kept_non_str [of env v v'] by (simp add: is_str_def)
  then have "repr h' v' PyNone \<and> tree_kept env PyNone PyNone"
    by (simp add: tree_kept_def)
  then show ?case by blast
next
  case (PyBool b)
  then have "v' = RBool b" using slot_kept_non_str [of env v v'] by (simp add: is_str_def)
  then have "repr h' v' (PyBool b) \<and> tree_kept env (PyBool b) (PyBool b)"
    by (simp add: tree_kept_def)
  then show ?case by blast
next
  case (PyInt i)
  then have "v' = RInt i" using slot_kept_non_str [of env v v'] by (simp add: is_str_def)
  then have "repr h' v' (PyInt i) \<and> tree_kept env (PyInt i) (PyInt i)"
    by (simp add: tree_kept_def)
  then show ?case by blast
next
  case (PyFloat r)
  then have "v' = RFloat r" using slot_kept_non_str [of env v v'] by (simp add: is_str_def)
  then have "repr h' v' (PyFloat r) \<and> tree_kept env (PyFloat r) (PyFloat r)"
    by (simp add: tree_kept_def)
  then show ?case by blast
next
  case (PyStr s)
  then have v: "v = RStr s" by simp
  with PyStr.prems(3) obtain s' where s': "v' = RStr s'" "kept_str env s s'"
    by (auto simp add: slot_kept_def injection_of_def kept_str_def inj_str_def)
  then have "repr h' v' (PyStr s') \<and> tree_kept env (PyStr s) (PyStr s')"
    by (simp add: tree_kept_def)
  then show ?case by blast
next
  case (PyList ts)
  from PyList.prems(2) obtain a xs where
    v: "v = RRef a" and at: "h a = Some (ListObj xs)" and xs: "list_all2 (repr h) xs ts"
    by (auto split: ref_value.splits option.splits heap_obj.splits)
  from v PyList.prems(3) have v': "v' = RRef a"
    using slot_kept_non_str [of env v v'] by (simp add: is_str_def)
  from kept_list_at [OF PyList.prems(1) at] obtain xs' where
    xs': "h' a = Some (ListObj xs')" "length xs' = length xs"
      "\<forall>i<length xs. slot_kept env (xs ! i) (xs' ! i)"
    by blast
  have "list_all2 (\<lambda>x' t. \<exists>t'. repr h' x' t' \<and> tree_kept env t t') xs' ts"
    unfolding list_all2_conv_all_nth
  proof (intro conjI allI impI)
    show "length xs' = length ts"
      using xs'(2) xs by (simp add: list_all2_lengthD)
  next
    fix i assume i: "i < length xs'"
    with xs'(2) xs have "ts ! i \<in> set ts" "repr h (xs ! i) (ts ! i)" "slot_kept env (xs ! i) (xs' ! i)"
      using xs'(3) by (auto simp add: list_all2_conv_all_nth)
    then show "\<exists>t'. repr h' (xs' ! i) t' \<and> tree_kept env (ts ! i) t'"
      using PyList.IH PyList.prems(1) by blast
  qed
  from list_all2_ex_split [OF this] obtain ts' where
    ts': "list_all2 (repr h') xs' ts'" "list_all2 (tree_kept env) ts ts'"
    by blast
  from ts'(2) have "list_all2 (tree_rel (kept_str env)) ts ts'"
    by (simp add: tree_kept_def [abs_def])
  with ts'(1) xs'(1) v' have "repr h' v' (PyList ts') \<and> tree_kept env (PyList ts) (PyList ts')"
    by (simp add: tree_kept_def)
  then show ?case by blast
next
  case (PyDict kts)
  let ?A = "\<lambda>p q. fst p = fst q \<and> repr h (snd p) (snd q)"
  from PyDict.prems(2) obtain a kvs where
    v: "v = RRef a" and at: "h a = Some (DictObj kvs)" and kvs: "list_all2 ?A kvs kts"
    by (auto split: ref_value.splits option.splits heap_obj.splits)
  from v PyDict.prems(3) have v': "v' = RRef a"
    using slot_kept_non_str [of env v v'] by (simp add: is_str_def)
  from kept_dict_at [OF PyDict.prems(1) at] obtain kvs' where
    kvs': "h' a = Some (DictObj kvs')" "map fst kvs' = map fst kvs" "length kvs' = length kvs"
      "\<forall>i<length kvs. slot_kept env (snd (kvs ! i)) (snd (kvs' ! i))"
    by blast
  have "list_all2 (\<lambda>p' q. \<exists>q'. (fst p' = fst q' \<and> repr h' (snd p') (snd q'))
          \<and> (fst q' = fst q \<and> tree_kept env (snd q) (snd q'))) kvs' kts"
    unfolding list_all2_conv_all_nth
  proof (intro conjI allI impI)
    show "length kvs' = length kts"
      using kvs'(3) kvs by (simp add: list_all2_lengthD)
  next
    fix i assume i: "i < length kvs'"
    with kvs'(3) kvs have i': "kts ! i \<in> set kts" "fst (kvs ! i) = fst (kts ! i)"
      "repr h (snd (kvs ! i)) (snd (kts ! i))" "slot_kept env (snd (kvs ! i)) (snd (kvs' ! i))"
      using kvs'(4) by (auto simp add: list_all2_conv_all_nth)
    from i kvs'(2,3) have key: "fst (kvs' ! i) = fst (kvs ! i)"
      by (metis nth_map)
    from i'(1,3,4) obtain t' where "repr h' (snd (kvs' ! i)) t'" "tree_kept env (snd (kts ! i)) t'"
      using PyDict.IH [of "kts ! i" "snd (kts ! i)"] PyDict.prems(1)
      by (auto simp add: Basic_BNFs.snds.intros)
    with key i'(2) have "(fst (kvs' ! i) = fst (fst (kts ! i), t')
        \<and> repr h' (snd (kvs' ! i)) (snd (fst (kts ! i), t')))
        \<and> (fst (fst (kts ! i), t') = fst (kts ! i)
        \<and> tree_kept env (snd (kts ! i)) (snd (fst (kts ! i), t')))"
      by simp
    then show "\<exists>q'. (fst (kvs' ! i) = fst q' \<and> repr h' (snd (kvs' ! i)) (snd q'))
        \<and> (fst q' = fst (kts ! i) \<and> tree_kept env (snd (kts ! i)) (snd q'))"
      by blast
  qed
  from list_all2_ex_split [OF this] obtain kts' where
    kts': "list_all2 (\<lambda>p' q'. fst p' = fst q' \<and> repr h' (snd p') (snd q')) kvs' kts'"
      "list_all2 (\<lambda>q q'. fst q' = fst q \<and> tree_kept env (snd q) (snd q')) kts kts'"
    by blast
  from kts'(2) have "list_all2 (\<lambda>q q'. fst q' = fst q \<and> tree_rel (kept_str env) (snd q) (snd q')) kts kts'"
    by (simp add: tree_kept_def)
  with kts'(1) kvs'(1) v' have "repr h' v' (PyDict kts') \<and> tree_kept env (PyDict kts) (PyDict kts')"
    by (simp add: tree_kept_def)
  then show ?case by blast
qed

lemma repr_injected_kept:
  assumes "store_kept env h h'" and "repr h v t'" and "tree_injected env t t'"
    and "slot_kept env v v'"
  shows "repr h' v' t'"
proof -
  from repr_kept [OF assms(1,2,4)] obtain t'' where "repr h' v' t''" "tree_kept env t' t''"
    by blast
  moreover from assms(3) this(2) have "t'' = t'"
    by (rule tree_injected_then_kept)
  ultimately show ?thesis by simp
qed


subsection \<open>The loops inject the trees of the entries\<close>

lemma tree_goodD:
  "tree_good env f \<Longrightarrow> wf_store h \<Longrightarrow> repr h v t \<Longrightarrow> f v h = (Inr r, h') \<Longrightarrow>
     \<exists>t'. repr h' r t' \<and> tree_injected env t t'"
  unfolding tree_good_def by blast

lemma list_loop_repr:
  assumes keeps: "keeps_store env f"
    and good: "tree_good env f"
    and wf: "wf_store h0"
    and obj: "h0 a = Some (ListObj xs0)"
    and orig: "list_all2 (repr h0) xs0 ts"
  shows "store_kept env h0 h \<Longrightarrow> h a = Some (ListObj cur) \<Longrightarrow> n \<le> length xs0 \<Longrightarrow>
         \<forall>i<n. \<exists>t'. repr h (cur ! i) t' \<and> tree_injected env (ts ! i) t' \<Longrightarrow>
         list_loop f a [n..<length xs0] h = (Inr (), h') \<Longrightarrow>
         \<exists>xs' ts'. h' a = Some (ListObj xs') \<and> list_all2 (repr h') xs' ts'
            \<and> list_all2 (tree_injected env) ts ts'"
proof (induction "length xs0 - n" arbitrary: n h cur)
  case 0
  then have n: "n = length xs0" by simp
  with "0.prems"(5) have h': "h' = h" by simp
  from kept_list_at [OF "0.prems"(1) obj] "0.prems"(2)
  have len: "length cur = length xs0" by auto
  from orig have lts: "length ts = length xs0" by (simp add: list_all2_lengthD)
  from n len lts "0.prems"(4)
  have "list_all2 (\<lambda>x t. \<exists>t'. repr h x t' \<and> tree_injected env t t') cur ts"
    by (simp add: list_all2_conv_all_nth)
  from list_all2_ex_split [OF this] h' "0.prems"(2) show ?case by blast
next
  case (Suc m)
  then have n: "n < length xs0" by simp
  then have indices: "[n..<length xs0] = n # [Suc n..<length xs0]"
    by (simp add: upt_conv_Cons)
  from orig have lts: "length ts = length xs0" by (simp add: list_all2_lengthD)
  from kept_list_at [OF Suc.prems(1) obj] Suc.prems(2) have
    cur: "length cur = length xs0" "\<forall>i<length xs0. slot_kept env (xs0 ! i) (cur ! i)"
    by auto
  obtain r1 h1 where call: "f (cur ! n) h = (r1, h1)" by (cases "f (cur ! n) h")
  from indices call Suc.prems(2,5) n cur(1) obtain v' where r1: "r1 = Inr v'"
    by (cases r1) auto
  have wfh: "wf_store h"
    using store_kept_wf [OF Suc.prems(1) wf] .
  from keeps_storeD [OF keeps wfh call] r1
  have step: "store_kept env h h1" and inj: "injected env (cur ! n) v'"
    by simp_all
  have kept1: "store_kept env h0 h1"
    using store_kept_trans [OF Suc.prems(1) step] .
  from orig n have "repr h0 (xs0 ! n) (ts ! n)"
    by (simp add: list_all2_conv_all_nth)
  from repr_kept [OF Suc.prems(1) this] cur(2) n obtain tcur where
    tcur: "repr h (cur ! n) tcur" "tree_kept env (ts ! n) tcur"
    by blast
  from tree_goodD [OF good wfh tcur(1) call [unfolded r1]] obtain t1 where
    t1: "repr h1 v' t1" "tree_injected env tcur t1"
    by blast
  from tcur(2) t1(2) have t1_orig: "tree_injected env (ts ! n) t1"
    by (rule tree_kept_then_injected)
  from kept_list_at [OF step Suc.prems(2)] obtain cur1 where
    cur1: "h1 a = Some (ListObj cur1)" "length cur1 = length cur"
      "\<forall>i<length cur. slot_kept env (cur ! i) (cur1 ! i)"
    by blast
  let ?cur2 = "cur1[n := v']"
  have set: "list_setitem a n v' h1 = h1(a \<mapsto> ListObj ?cur2)"
    using cur1(1,2) cur(1) n by (simp add: list_setitem_def)
  from cur1(3) n cur(1) have live: "slot_kept env (cur ! n) (cur1 ! n)" by simp
  from key_step [OF live slot_kept_refl inj]
  have new: "slot_kept env (cur1 ! n) v'" by simp
  have "list_all2 (slot_kept env) cur1 ?cur2"
    using new n cur1(2) cur(1)
    by (auto simp add: list_all2_conv_all_nth nth_list_update)
  then have "obj_kept env (ListObj cur1) (ListObj ?cur2)"
    by simp
  with cur1(1) set have step2: "store_kept env h1 (list_setitem a n v' h1)"
    using store_kept_update by simp
  with step have kept_h: "store_kept env h (list_setitem a n v' h1)"
    by (rule store_kept_trans)
  with Suc.prems(1) have kept2: "store_kept env h0 (list_setitem a n v' h1)"
    by (rule store_kept_trans)
  have cur2: "list_setitem a n v' h1 a = Some (ListObj ?cur2)"
    using set by simp
  from kept_list_at [OF kept_h Suc.prems(2)] cur2
  have slots: "\<forall>i<length cur. slot_kept env (cur ! i) (?cur2 ! i)"
    by auto
  have inv2: "\<forall>i<Suc n. \<exists>t'. repr (list_setitem a n v' h1) (?cur2 ! i) t'
      \<and> tree_injected env (ts ! i) t'"
  proof (intro allI impI)
    fix i assume i: "i < Suc n"
    show "\<exists>t'. repr (list_setitem a n v' h1) (?cur2 ! i) t' \<and> tree_injected env (ts ! i) t'"
    proof (cases "i = n")
      case True
      have "repr (list_setitem a n v' h1) v' t1"
        using repr_injected_kept [OF step2 t1(1) t1_orig slot_kept_refl] .
      with True n cur1(2) cur(1) t1_orig show ?thesis by auto
    next
      case False
      with i have lt: "i < n" by simp
      with Suc.prems(4) obtain t' where t': "repr h (cur ! i) t'" "tree_injected env (ts ! i) t'"
        by blast
      from lt n cur(1) have "i < length cur" by simp
      with slots have "slot_kept env (cur ! i) (?cur2 ! i)" by blast
      from repr_injected_kept [OF kept_h t'(1) t'(2) this] t'(2) show ?thesis by blast
    qed
  qed
  from Suc.hyps(2) have m: "m = length xs0 - Suc n" by simp
  from n have le: "Suc n \<le> length xs0" by simp
  from indices call r1 Suc.prems(2,5) n cur(1)
  have run: "list_loop f a [Suc n..<length xs0] (list_setitem a n v' h1) = (Inr (), h')"
    by simp
  show ?case
    by (rule Suc.hyps(1) [OF m kept2 cur2 le inv2 run])
qed

lemma dict_loop_repr:
  assumes keeps: "keeps_store env f"
    and good: "tree_good env f"
    and wf: "wf_store h0"
    and obj: "h0 a = Some (DictObj kvs0)"
    and orig: "list_all2 (\<lambda>p q. fst p = fst q \<and> repr h0 (snd p) (snd q)) kvs0 kts"
  shows "store_kept env h0 h \<Longrightarrow> h a = Some (DictObj cur) \<Longrightarrow> n \<le> length kvs0 \<Longrightarrow>
         \<forall>i<n. \<exists>t'. repr h (snd (cur ! i)) t' \<and> tree_injected env (snd (kts ! i)) t' \<Longrightarrow>
         dict_loop f a (drop n kvs0) h = (Inr (), h') \<Longrightarrow>
         \<exists>kvs' kts'. h' a = Some (DictObj kvs')
            \<and> list_all2 (\<lambda>p q. fst p = fst q \<and> repr h' (snd p) (snd q)) kvs' kts'
            \<and> list_all2 (\<lambda>q q'. fst q' = fst q \<and> tree_injected env (snd q) (snd q')) kts kts'"
proof (induction "length kvs0 - n" arbitrary: n h cur)
  case 0
  then have n: "n = length kvs0" by simp
  with "0.prems"(5) have h': "h' = h" by simp
  from kept_dict_at [OF "0.prems"(1) obj] "0.prems"(2)
  have len: "length cur = length kvs0" and keys: "map fst cur = map fst kvs0" by auto
  from orig have lts: "length kts = length kvs0" by (simp add: list_all2_lengthD)
  have "list_all2 (\<lambda>p q. \<exists>q'. (fst p = fst q' \<and> repr h (snd p) (snd q'))
          \<and> (fst q' = fst q \<and> tree_injected env (snd q) (snd q'))) cur kts"
    unfolding list_all2_conv_all_nth
  proof (intro conjI allI impI)
    show "length cur = length kts" using len lts by simp
  next
    fix i assume i: "i < length cur"
    with len n "0.prems"(4) obtain t' where
      t': "repr h (snd (cur ! i)) t'" "tree_injected env (snd (kts ! i)) t'"
      by auto
    from i len keys have "fst (cur ! i) = fst (kvs0 ! i)" by (metis nth_map)
    moreover from orig i len have "fst (kvs0 ! i) = fst (kts ! i)"
      by (simp add: list_all2_conv_all_nth)
    ultimately have "(fst (cur ! i) = fst (fst (kts ! i), t')
        \<and> repr h (snd (cur ! i)) (snd (fst (kts ! i), t')))
        \<and> (fst (fst (kts ! i), t') = fst (kts ! i)
        \<and> tree_injected env (snd (kts ! i)) (snd (fst (kts ! i), t')))"
      using t' by simp
    then show "\<exists>q'. (fst (cur ! i) = fst q' \<and> repr h (snd (cur ! i)) (snd q'))
        \<and> (fst q' = fst (kts ! i) \<and> tree_injected env (snd (kts ! i)) (snd q'))"
      by blast
  qed
  from list_all2_ex_split [OF this] h' "0.prems"(2) show ?case by blast
next
  case (Suc m)
  then have n: "n < length kvs0" by simp
  obtain k v where kv: "kvs0 ! n = (k, v)" by (cases "kvs0 ! n")
  with n have items: "drop n kvs0 = (k, v) # drop (Suc n) kvs0"
    by (simp add: Cons_nth_drop_Suc [symmetric])
  from kept_dict_at [OF Suc.prems(1) obj] Suc.prems(2) have
    cur: "length cur = length kvs0"
    by auto
  obtain r1 h1 where call: "f v h = (r1, h1)" by (cases "f v h")
  from items call Suc.prems(5) obtain v' where r1: "r1 = Inr v'"
    by (cases r1) auto
  have wfh: "wf_store h"
    using store_kept_wf [OF Suc.prems(1) wf] .
  from keeps_storeD [OF keeps wfh call] r1
  have step: "store_kept env h h1" and inj: "injected env v v'"
    by simp_all
  have kept1: "store_kept env h0 h1"
    using store_kept_trans [OF Suc.prems(1) step] .
  from orig n kv have "repr h0 v (snd (kts ! n))"
    by (auto simp add: list_all2_conv_all_nth)
  from repr_kept [OF Suc.prems(1) this slot_kept_refl] obtain tcur where
    tcur: "repr h v tcur" "tree_kept env (snd (kts ! n)) tcur"
    by blast
  from tree_goodD [OF good wfh tcur(1) call [unfolded r1]] obtain t1 where
    t1: "repr h1 v' t1" "tree_injected env tcur t1"
    by blast
  from tcur(2) t1(2) have t1_orig: "tree_injected env (snd (kts ! n)) t1"
    by (rule tree_kept_then_injected)
  from kept_dict_at [OF kept1 obj] obtain cur1 where
    cur1: "h1 a = Some (DictObj cur1)" "map fst cur1 = map fst kvs0" "length cur1 = length kvs0"
      "\<forall>i<length kvs0. slot_kept env (snd (kvs0 ! i)) (snd (cur1 ! i))"
    by blast
  have wf1: "wf_store h1"
    using store_kept_wf [OF kept1 wf] .
  with cur1(1) have dist: "distinct (map fst cur1)"
    by (simp add: wf_store_def)
  from cur1(2) n kv cur1(3) have key: "fst (cur1 ! n) = k"
    by (metis fst_conv nth_map)
  let ?cur2 = "cur1[n := (k, v')]"
  have set: "dict_setitem a k v' h1 = h1(a \<mapsto> DictObj ?cur2)"
    using cur1(1,3) n update_at [OF dist _ key, of v']
    by (simp add: dict_setitem_def)
  from cur1(4) n have live: "slot_kept env v (snd (cur1 ! n))"
    using kv by (metis snd_conv)
  from key_step [OF live slot_kept_refl inj]
  have new: "slot_kept env (snd (cur1 ! n)) v'" by simp
  have keys2: "map fst ?cur2 = map fst cur1"
    using key n cur1(3) by (simp add: map_update) (metis list_update_id nth_map length_map)
  have "list_all2 (slot_kept env) (map snd cur1) (map snd ?cur2)"
    using new n cur1(3)
    by (auto simp add: list_all2_conv_all_nth nth_list_update)
  with keys2 have "obj_kept env (DictObj cur1) (DictObj ?cur2)"
    by simp
  with cur1(1) set have step2: "store_kept env h1 (dict_setitem a k v' h1)"
    using store_kept_update by simp
  with step have kept_h: "store_kept env h (dict_setitem a k v' h1)"
    by (rule store_kept_trans)
  with Suc.prems(1) have kept2: "store_kept env h0 (dict_setitem a k v' h1)"
    by (rule store_kept_trans)
  have cur2: "dict_setitem a k v' h1 a = Some (DictObj ?cur2)"
    using set by simp
  from kept_dict_at [OF kept_h Suc.prems(2)] cur2
  have slots: "\<forall>i<length cur. slot_kept env (snd (cur ! i)) (snd (?cur2 ! i))"
    by auto
  have inv2: "\<forall>i<Suc n. \<exists>t'. repr (dict_setitem a k v' h1) (snd (?cur2 ! i)) t'
      \<and> tree_injected env (snd (kts ! i)) t'"
  proof (intro allI impI)
    fix i assume i: "i < Suc n"
    show "\<exists>t'. repr (dict_setitem a k v' h1) (snd (?cur2 ! i)) t'
        \<and> tree_injected env (snd (kts ! i)) t'"
    proof (cases "i = n")
      case True
      have "repr (dict_setitem a k v' h1) v' t1"
        using repr_injected_kept [OF step2 t1(1) t1_orig slot_kept_refl] .
      with True n cur1(3) t1_orig show ?thesis by auto
    next
      case False
      with i have lt: "i < n" by simp
      with Suc.prems(4) obtain t' where
        t': "repr h (snd (cur ! i)) t'" "tree_injected env (snd (kts ! i)) t'"
        by blast
      from lt n cur have "i < length cur" by simp
      with slots have "slot_kept env (snd (cur ! i)) (snd (?cur2 ! i))" by blast
      from repr_injected_kept [OF kept_h t'(1) t'(2) this] t'(2) show ?thesis by blast
    qed
  qed
  from Suc.hyps(2) have m: "m = length kvs0 - Suc n" by simp
  from n have le: "Suc n \<le> length kvs0" by simp
  from items call r1 Suc.prems(5)
  have run: "dict_loop f a (drop (Suc n) kvs0) (dict_setitem a k v' h1) = (Inr (), h')"
    by simp
  show ?case
    by (rule Suc.hyps(1) [OF m kept2 cur2 le inv2 run])
qed


subsection \<open>The store after a call stands for the injected tree\<close>

lemma tree_injected_scalar [simp]:
  "tree_injected env PyNone PyNone" "tree_injected env (PyBool b) (PyBool b)"
  "tree_injected env (PyInt i) (PyInt i)" "tree_injected env (PyFloat x) (PyFloat x)"
  by (simp_all add: tree_injected_def)

lemma inject_tree_injected:
  "inject_env_vars depth env t = Inr t' \<Longrightarrow> tree_injected env t t'"
proof (induction depth arbitrary: t t')
  case 0
  then show ?case by simp
next
  case (Suc depth)
  show ?case
  proof (cases t)
    case (PyStr s)
    with Suc.prems obtain s' where "t' = PyStr s'"
      using inject_str_result by blast
    with PyStr Suc.prems show ?thesis
      unfolding tree_injected_def inj_str_def by (simp del: inject_env_vars.simps) blast
  next
    case (PyList xs)
    with Suc.prems obtain ys where ys: "t' = PyList ys"
      "list_all2 (\<lambda>x y. inject_env_vars depth env x = Inr y) xs ys"
      by (auto split: sum.splits simp add: for_each_Inr_iff)
    from ys(2) have "list_all2 (tree_rel (inj_str env)) xs ys"
      by (rule list.rel_mono_strong) (use Suc.IH in \<open>simp add: tree_injected_def\<close>)
    with PyList ys(1) show ?thesis by (simp add: tree_injected_def)
  next
    case (PyDict kvs)
    let ?f = "\<lambda>(k, v). case inject_env_vars depth env v of Inl e \<Rightarrow> Inl e | Inr v' \<Rightarrow> Inr (k, v')"
    from PyDict Suc.prems obtain kvs' where kvs': "t' = PyDict kvs'"
      "list_all2 (\<lambda>x y. ?f x = Inr y) kvs kvs'"
      by (auto split: sum.splits simp add: for_each_Inr_iff)
    from kvs'(2) have "list_all2 (\<lambda>p q. fst q = fst p \<and> tree_rel (inj_str env) (snd p) (snd q)) kvs kvs'"
    proof (rule list.rel_mono_strong)
      fix p q assume "?f p = Inr q"
      then have "fst q = fst p \<and> inject_env_vars depth env (snd p) = Inr (snd q)"
        by (cases p) (auto split: sum.splits)
      then show "fst q = fst p \<and> tree_rel (inj_str env) (snd p) (snd q)"
        using Suc.IH by (simp add: tree_injected_def)
    qed
    with PyDict kvs'(1) show ?thesis by (simp add: tree_injected_def)
  qed (use Suc.prems in auto)
qed

lemma inject_store_tree_good: "tree_good env (\<lambda>v h. inject_env_vars_store depth env v h)"
proof (induction depth)
  case 0
  show ?case by (simp add: tree_good_def)
next
  case (Suc depth)
  let ?f = "\<lambda>v h. inject_env_vars_store depth env v h"
  have keeps: "keeps_store env ?f" by (rule inject_store_keeps)
  show ?case
    unfolding tree_good_def
  proof (intro allI impI)
    fix v h t r h'
    assume wf: "wf_store h" and rep: "repr h v t"
      and run: "inject_env_vars_store (Suc depth) env v h = (Inr r, h')"
    show "\<exists>t'. repr h' r t' \<and> tree_injected env t t'"
    proof (cases t)
      case PyNone
      with rep run have "repr h' r PyNone \<and> tree_injected env t PyNone" by auto
      then show ?thesis by blast
    next
      case (PyBool b)
      with rep run have "repr h' r (PyBool b) \<and> tree_injected env t (PyBool b)" by auto
      then show ?thesis by blast
    next
      case (PyInt i)
      with rep run have "repr h' r (PyInt i) \<and> tree_injected env t (PyInt i)" by auto
      then show ?thesis by blast
    next
      case (PyFloat x)
      with rep run have "repr h' r (PyFloat x) \<and> tree_injected env t (PyFloat x)" by auto
      then show ?thesis by blast
    next
      case (PyStr s)
      with rep have v: "v = RStr s" by simp
      from store_str [OF run [unfolded v]] obtain s' where
        s': "r = RStr s'" "inject_env_vars (Suc depth) env (PyStr s) = Inr (PyStr s')"
        by blast
      from s'(2) have "inj_str env s s'"
        unfolding inj_str_def by blast
      with s'(1) PyStr have "repr h' r (PyStr s') \<and> tree_injected env t (PyStr s')"
        by (simp add: tree_injected_def)
      then show ?thesis by blast
    next
      case (PyList ts)
      with rep obtain a xs where
        v: "v = RRef a" and at: "h a = Some (ListObj xs)" and xs: "list_all2 (repr h) xs ts"
        by (auto split: ref_value.splits option.splits heap_obj.splits)
      obtain r0 h0 where loop: "list_loop ?f a [0..<length xs] h = (r0, h0)"
        by (cases "list_loop ?f a [0..<length xs] h")
      from loop v at run have res: "h' = h0" "r0 = Inr ()" "r = RRef a"
        by (auto split: sum.splits)
      from list_loop_repr [OF keeps Suc wf at xs store_kept_refl at _ _ loop [unfolded res(2)]]
      obtain xs' ts' where "h0 a = Some (ListObj xs')" "list_all2 (repr h0) xs' ts'"
        "list_all2 (tree_injected env) ts ts'"
        by auto
      with res PyList have "repr h' r (PyList ts') \<and> tree_injected env t (PyList ts')"
        by (simp add: tree_injected_def [abs_def])
      then show ?thesis by blast
    next
      case (PyDict kts)
      with rep obtain a kvs where
        v: "v = RRef a" and at: "h a = Some (DictObj kvs)"
        and kvs: "list_all2 (\<lambda>p q. fst p = fst q \<and> repr h (snd p) (snd q)) kvs kts"
        by (auto split: ref_value.splits option.splits heap_obj.splits)
      obtain r0 h0 where loop: "dict_loop ?f a (drop 0 kvs) h = (r0, h0)"
        by (cases "dict_loop ?f a (drop 0 kvs) h")
      from loop v at run have res: "h' = h0" "r0 = Inr ()" "r = RRef a"
        by (auto split: sum.splits)
      from dict_loop_repr [OF keeps Suc wf at kvs store_kept_refl at _ _ loop [unfolded res(2)]]
      obtain kvs' kts' where "h0 a = Some (DictObj kvs')"
        "list_all2 (\<lambda>p q. fst p = fst q \<and> repr h0 (snd p) (snd q)) kvs' kts'"
        "list_all2 (\<lambda>q q'. fst q' = fst q \<and> tree_injected env (snd q) (snd q')) kts kts'"
        by auto
      with res PyDict have "repr h' r (PyDict kts') \<and> tree_injected env t (PyDict kts')"
        by (simp add: tree_injected_def)
      then show ?thesis by blast
    qed
  qed
qed

lemma inject_store_refines:
  assumes "wf_store h" and "repr h v t"
    and "inject_env_vars_store depth env v h = (Inr r, h')"
    and "inject_env_vars depth' env t = Inr t'"
  shows "repr h' r t'"
proof -
  from tree_goodD [OF inject_store_tree_good assms(1,2,3)] obtain t1 where
    t1: "repr h' r t1" "tree_injected env t t1"
    by blast
  from assms(4) have "tree_injected env t t'"
    by (rule inject_tree_injected)
  with t1(2) have "t1 = t'"
    unfolding tree_injected_def using tree_rel_single [of "inj_str env" t t1 t'] inj_str_single
    by blast
  with t1(1) show ?thesis by simp
qed










end
